theory Spec2Isabelle
  imports Complex_Main "HOL-Library.Sublist"
begin

section \<open>Values, registry keys and errors\<close>

text \<open>
  The client of \<^verbatim>\<open>src/ensimesublime/client.py\<close> stores whatever
  \<^verbatim>\<open>json.loads\<close> produced, so registry values are modelled as Python
  values: \<^verbatim>\<open>None\<close>, booleans, integers, strings, lists and dictionaries
  (association lists; a lookup takes the first binding of a name). Floats are left out.
\<close>

datatype pyval =
    PNone
  | PBool bool
  | PInt int
  | PStr string
  | PList "pyval list"
  | PDict "(string \<times> pyval) list"

text \<open>
  Keys of the \<^verbatim>\<open>responses\<close> dictionary are the hashable values. Python
  identifies \<^verbatim>\<open>True\<close> with 1 and \<^verbatim>\<open>False\<close> with 0 as keys;
  lists and dictionaries are unhashable.
\<close>

datatype key = KNone | KInt int | KStr string

fun as_key :: "pyval \<Rightarrow> key option" where
  "as_key PNone = Some KNone"
| "as_key (PBool b) = Some (KInt (if b then 1 else 0))"
| "as_key (PInt i) = Some (KInt i)"
| "as_key (PStr s) = Some (KStr s)"
| "as_key (PList xs) = None"
| "as_key (PDict kvs) = None"

datatype error = KeyError | TypeError | AttributeError | ValueError | WebSocketException

text \<open>Python truthiness, as tested by \<^verbatim>\<open>if result\<close> and \<^verbatim>\<open>if _json["payload"]\<close>.\<close>

fun truthy :: "pyval \<Rightarrow> bool" where
  "truthy PNone = False"
| "truthy (PBool b) = b"
| "truthy (PInt i) = (i \<noteq> 0)"
| "truthy (PStr s) = (s \<noteq> [])"
| "truthy (PList xs) = (xs \<noteq> [])"
| "truthy (PDict kvs) = (kvs \<noteq> [])"

text \<open>\<^verbatim>\<open>v.get(name)\<close>: \<^verbatim>\<open>None\<close> for a missing name, AttributeError when
  \<^verbatim>\<open>v\<close> is not a dictionary.\<close>

fun py_get :: "pyval \<Rightarrow> string \<Rightarrow> error + pyval" where
  "py_get (PDict kvs) name = (case map_of kvs name of None \<Rightarrow> Inr PNone | Some v \<Rightarrow> Inr v)"
| "py_get v name = Inl AttributeError"

text \<open>\<^verbatim>\<open>v[name]\<close> on a dictionary: KeyError for a missing name. It is only reached
  after \<^verbatim>\<open>get\<close> succeeded, so the other values are given the TypeError
  Python raises for them.\<close>

fun py_item :: "pyval \<Rightarrow> string \<Rightarrow> error + pyval" where
  "py_item (PDict kvs) name = (case map_of kvs name of None \<Rightarrow> Inl KeyError | Some v \<Rightarrow> Inr v)"
| "py_item v name = Inl TypeError"

section \<open>The client state\<close>

text \<open>
  One event of the schedule seen by a polling \<^verbatim>\<open>get_response\<close>: the wall-clock
  time the iteration takes beyond the sleep it asks for, and the entries other threads
  put into \<^verbatim>\<open>responses\<close> meanwhile.
\<close>

record gr_event =
  dt :: rat
  arrivals :: "(key \<times> pyval) list"

text \<open>
  The fields of \<^verbatim>\<open>EnsimeClient\<close> that the modelled methods read or write, the
  observable effects on the collaborators (counters and logs), and the environment: the
  clock read by \<^verbatim>\<open>time.time()\<close>, the time \<open>read_gap\<close> that passes between the two
  readings of a statement \<^verbatim>\<open>start, now = time.time(), time.time()\<close>, the outcomes of
  the coming transport calls (\<open>True\<close> for a raised \<^verbatim>\<open>WebSocketException\<close>; an
  exhausted plan means success) and the schedule of the polling loop.
\<close>

record state =
  ws :: bool
  ensime :: "nat option"
  ensime_server :: "nat option"
  call_id :: int
  responses :: "key \<rightharpoonup> pyval"
  number_try_connection :: int
  running :: bool
  connected :: bool
  handled :: "(pyval \<times> pyval) list"
  sent :: "pyval list"
  warnings :: nat
  stops :: nat
  uncolorized :: nat
  connects :: nat
  timeout_logs :: nat
  send_error_logs :: nat
  clock :: rat
  read_gap :: rat
  send_plan :: "bool list"
  conn_plan :: "bool list"
  sched :: "gr_event list"

datatype 'a outcome = Returned 'a state | Raised error state | Pending state

text \<open>The state after \<^verbatim>\<open>__init__\<close> (lines 45 to 59), in an environment where nothing
  is scheduled, no transport call fails and two clock readings in a row agree.\<close>

definition init :: state where
  "init = \<lparr>ws = False, ensime = None, ensime_server = None, call_id = 1,
     responses = Map.empty, number_try_connection = 1, running = True, connected = False,
     handled = [], sent = [], warnings = 0, stops = 0, uncolorized = 0, connects = 0,
     timeout_logs = 0, send_error_logs = 0, clock = 0, read_gap = 0, send_plan = [], conn_plan = [], sched = []\<rparr>"

section \<open>get_response\<close>

text \<open>Modelled from the spec: \<^verbatim>\<open>handle_incoming_response\<close> belongs to the
  \<^verbatim>\<open>ProtocolHandler\<close> base class, which is not among the sources; the spec gives
  only its interface (\<^verbatim>\<open>handleIncomingResponse(callId_or_none, payload)\<close>, an
  external handler dispatch). The call is recorded and has no other effect.\<close>

definition handle_incoming_response :: "pyval \<Rightarrow> pyval \<Rightarrow> state \<Rightarrow> state" where
  "handle_incoming_response cid payload s = s\<lparr>handled := handled s @ [(cid, payload)]\<rparr>"

text \<open>\<^verbatim>\<open>del self.responses[k]\<close>: TypeError for an unhashable \<^verbatim>\<open>k\<close>,
  KeyError for a missing one.\<close>

definition del_response :: "pyval \<Rightarrow> state \<Rightarrow> error + state" where
  "del_response k s =
     (case as_key k of
        None \<Rightarrow> Inl TypeError
      | Some k' \<Rightarrow>
          (if k' \<in> dom (responses s)
           then Inr (s\<lparr>responses := (responses s)(k' := None)\<rparr>)
           else Inl KeyError))"

text \<open>Lines 235 to 242: the branch taken for a stored value that is truthy and not
  \<^verbatim>\<open>"nil"\<close>. It yields the state after the deletion, or the exception and the
  state at the raise.\<close>

definition consume :: "pyval \<Rightarrow> state \<Rightarrow> error \<times> state + state" where
  "consume result s =
     (case py_get result ''callId'' of
        Inl e \<Rightarrow> Inl (e, s)
      | Inr cid \<Rightarrow>
          (case py_item result ''payload'' of
             Inl e \<Rightarrow> Inl (e, s)
           | Inr payload \<Rightarrow>
               (let s1 = (if truthy payload then handle_incoming_response cid payload s else s)
                in case del_response cid s1 of
                     Inl e \<Rightarrow> Inl (e, s1)
                   | Inr s2 \<Rightarrow> Inr s2)))"

text \<open>The writes of other threads into \<^verbatim>\<open>responses\<close>, in their order.\<close>

fun deliver :: "(key \<times> pyval) list \<Rightarrow> (key \<rightharpoonup> pyval) \<Rightarrow> (key \<rightharpoonup> pyval)" where
  "deliver [] m = m"
| "deliver ((k, v) # kvs) m = deliver kvs (m(k \<mapsto> v))"

datatype loop_result =
    Exited rat rat state
  | LoopRaised error state
  | Spinning rat rat state

text \<open>
  The \<^verbatim>\<open>while\<close> loop of lines 227 to 244, entered with \<^verbatim>\<open>wait\<close> true. The
  arguments are the schedule still to come, the awaited id, the timeout and the local
  variables \<^verbatim>\<open>start\<close> and \<^verbatim>\<open>now\<close>. An iteration that sleeps takes
  0.25 and the event's \<open>dt\<close>; one that finds \<^verbatim>\<open>"nil"\<close> or a falsy value
  neither sleeps nor reads the clock, and takes the event's \<open>dt\<close>; one that finds
  another value reads the clock twice (line 237) before it consumes the value. \<open>Exited\<close>
  carries \<^verbatim>\<open>start\<close> and \<^verbatim>\<open>now\<close> at the exit; \<open>Spinning\<close> means that the
  schedule ended while the loop was still running.
\<close>

fun gr_loop :: "gr_event list \<Rightarrow> key \<Rightarrow> rat \<Rightarrow> rat \<Rightarrow> rat \<Rightarrow> state \<Rightarrow> loop_result" where
  "gr_loop evs cid timeout start now s =
     (if now - start < timeout then
        (case responses s cid of
           None \<Rightarrow>
             (case evs of
                [] \<Rightarrow> Spinning start now s
              | ev # evs' \<Rightarrow>
                  (let s' = s\<lparr>clock := clock s + 0.25 + dt ev,
                              responses := deliver (arrivals ev) (responses s),
                              sched := evs'\<rparr>
                   in gr_loop evs' cid timeout start (clock s') s'))
         | Some result \<Rightarrow>
             (if truthy result \<and> result \<noteq> PStr ''nil'' then
                (case consume result (s\<lparr>clock := clock s + read_gap s\<rparr>) of
                   Inl (e, s') \<Rightarrow> LoopRaised e s'
                 | Inr s' \<Rightarrow> Exited (clock s) (clock s + read_gap s) s')
              else
                (case evs of
                   [] \<Rightarrow> Spinning start now s
                 | ev # evs' \<Rightarrow>
                     (let s' = s\<lparr>clock := clock s + dt ev,
                                 responses := deliver (arrivals ev) (responses s),
                                 sched := evs'\<rparr>
                      in gr_loop evs' cid timeout start now s'))))
      else Exited start now s)"

declare gr_loop.simps [simp del]

text \<open>The id that line 239 reads from inside a stored dictionary
  (\<^verbatim>\<open>result.get("callId")\<close>).\<close>

definition inner_call_id :: "(string \<times> pyval) list \<Rightarrow> pyval" where
  "inner_call_id kvs = (case map_of kvs ''callId'' of None \<Rightarrow> PNone | Some v \<Rightarrow> v)"

text \<open>\<^verbatim>\<open>get_response\<close> (lines 220 to 249). Line 225 reads the clock twice:
  \<^verbatim>\<open>now\<close> is later than \<^verbatim>\<open>start\<close> by \<open>read_gap\<close>.\<close>

definition get_response :: "key \<Rightarrow> rat \<Rightarrow> bool \<Rightarrow> state \<Rightarrow> bool outcome" where
  "get_response cid timeout should_wait s =
     (let start = clock s; now = clock s + read_gap s;
          s0 = s\<lparr>clock := now\<rparr>;
          wait = (should_wait \<and> cid \<notin> dom (responses s0));
          r = (if wait then gr_loop (sched s0) cid timeout start now s0
               else Exited start now s0)
      in case r of
           Exited start' now' s' \<Rightarrow>
             (if now' - start' \<ge> timeout
              then Returned False (s'\<lparr>timeout_logs := timeout_logs s' + 1\<rparr>)
              else Returned True s')
         | LoopRaised e s' \<Rightarrow> Raised e s'
         | Spinning start' now' s' \<Rightarrow> Pending s')"

text \<open>A value that ends the wait: the test of line 234.\<close>

definition qualifying :: "pyval \<Rightarrow> bool" where
  "qualifying v = (truthy v \<and> v \<noteq> PStr ''nil'')"

text \<open>An entry as line 89 of \<^verbatim>\<open>queue_poll\<close> writes it: the value is a dictionary whose
  own \<^verbatim>\<open>callId\<close> is not \<^verbatim>\<open>None\<close> and is the key it is stored under.\<close>

definition receiver_entry :: "key \<Rightarrow> pyval \<Rightarrow> bool" where
  "receiver_entry k v =
     (case v of
        PDict kvs \<Rightarrow> inner_call_id kvs \<noteq> PNone \<and> as_key (inner_call_id kvs) = Some k
      | _ \<Rightarrow> False)"

section \<open>Shutdown and the warning dialog\<close>

text \<open>\<^verbatim>\<open>_display_ws_warning\<close> (lines 138 to 141): one call of
  \<^verbatim>\<open>sublime.error_message\<close>.\<close>

definition display_ws_warning :: "state \<Rightarrow> state" where
  "display_ws_warning s = s\<lparr>warnings := warnings s + 1\<rparr>"

text \<open>\<^verbatim>\<open>shutdown_server\<close> (lines 191 to 199). It leaves \<^verbatim>\<open>running\<close> and
  \<^verbatim>\<open>ws\<close> alone.\<close>

definition shutdown_server :: "state \<Rightarrow> state" where
  "shutdown_server s =
     (let s1 = s\<lparr>connected := False\<rparr>;
          s2 = (if ensime s1 \<noteq> None then s1\<lparr>stops := stops s1 + 1\<rparr> else s1)
      in s2\<lparr>uncolorized := uncolorized s2 + 1\<rparr>)"

text \<open>\<^verbatim>\<open>teardown\<close> (lines 201 to 206).\<close>

definition teardown :: "state \<Rightarrow> state" where
  "teardown s = shutdown_server (s\<lparr>running := False\<rparr>)"

text \<open>\<^verbatim>\<open>disable_completely\<close> (lines 163 to 168), logging apart.\<close>

definition disable_completely :: "state \<Rightarrow> state" where
  "disable_completely s = display_ws_warning (shutdown_server s)"

section \<open>The transport\<close>

text \<open>\<^verbatim>\<open>self.ws.send(msg + "\n")\<close>: \<open>Inl\<close> when the call raises
  \<^verbatim>\<open>WebSocketException\<close>, as the plan of the environment says; otherwise the message is
  on the wire. The JSON text is kept as the value it serialises.\<close>

definition ws_send :: "pyval \<Rightarrow> state \<Rightarrow> state + state" where
  "ws_send msg s =
     (case send_plan s of
        [] \<Rightarrow> Inr (s\<lparr>sent := sent s @ [msg]\<rparr>)
      | fails # plan \<Rightarrow>
          (if fails then Inl (s\<lparr>send_plan := plan\<rparr>)
           else Inr (s\<lparr>send_plan := plan, sent := sent s @ [msg]\<rparr>)))"

text \<open>\<^verbatim>\<open>self.ws = websocket.create_connection(...)\<close> (line 181): every call is
  counted; when it raises, \<^verbatim>\<open>self.ws\<close> keeps its value.\<close>

definition create_connection :: "state \<Rightarrow> state + state" where
  "create_connection s =
     (let s1 = s\<lparr>connects := connects s + 1\<rparr>
      in case conn_plan s1 of
           [] \<Rightarrow> Inr (s1\<lparr>ws := True\<rparr>)
         | fails # plan \<Rightarrow>
             (if fails then Inl (s1\<lparr>conn_plan := plan\<rparr>)
              else Inr (s1\<lparr>conn_plan := plan, ws := True\<rparr>)))"

section \<open>send, connect_ensime_server and send_request\<close>

text \<open>Modelled from the spec: \<^verbatim>\<open>ConnectionInfoRequest\<close> and its \<^verbatim>\<open>run_in\<close> live in
  \<^verbatim>\<open>outgoing.py\<close>, which is not among the sources. The spec says that the handshake
  "issues a dedicated connection info handshake request" whose call id is then awaited: the
  request goes out through \<^verbatim>\<open>send_request\<close>, with this body.\<close>

definition connection_info_request :: pyval where
  "connection_info_request = PDict [(''typehint'', PStr ''ConnectionInfoReq'')]"

text \<open>The cached URI of lines 171 to 174, identified with the port it is built from.
  \<^verbatim>\<open>self.ensime.http_port()\<close> on a missing server process is an AttributeError.\<close>

definition server_uri :: "state \<Rightarrow> error + state" where
  "server_uri s =
     (if ensime_server s = None then
        (case ensime s of
           None \<Rightarrow> Inl AttributeError
         | Some port \<Rightarrow> Inr (s\<lparr>ensime_server := Some port\<rparr>))
      else Inr s)"

text \<open>Lines 175 to 182: the connection attempt under
  \<^verbatim>\<open>catch(WebSocketException, disable_completely)\<close>, then the decrement of the budget.\<close>

definition open_transport :: "state \<Rightarrow> state" where
  "open_transport s =
     (let s1 = (case create_connection s of Inr s' \<Rightarrow> s' | Inl s' \<Rightarrow> disable_completely s')
      in s1\<lparr>number_try_connection := number_try_connection s1 - 1\<rparr>)"

lemma ws_send_plan [termination_simp]:
  "ws_send msg s = Inl s' \<Longrightarrow> length (send_plan s') < length (send_plan s)"
  by (auto simp: ws_send_def split: list.splits if_splits)

lemma open_transport_plan [simp]: "send_plan (open_transport s) = send_plan s"
  by (simp add: open_transport_def create_connection_def disable_completely_def
      display_ws_warning_def shutdown_server_def Let_def split: list.splits)

lemma server_uri_plan: "server_uri s = Inr s' \<Longrightarrow> send_plan s' = send_plan s"
  by (auto simp: server_uri_def split: if_splits option.splits)

text \<open>Modelled from the spec: the context manager \<^verbatim>\<open>catch\<close> of \<^verbatim>\<open>util.py\<close> is not
  among the sources. It runs the handler when the body raises the named exception. For
  the handler of \<^verbatim>\<open>send\<close> the spec says that a failure of the retry "propagates no
  further than a log" and is "not escalated to the caller": a transport error raised by
  the retry is logged and \<^verbatim>\<open>send\<close> returns. Line 146 logs the first failure.

  The three methods call each other: \<^verbatim>\<open>send_request\<close> (lines 208 to 218) sends through
  \<^verbatim>\<open>send\<close> (lines 143 to 155), whose recovery handler \<^verbatim>\<open>reconnect\<close> calls
  \<^verbatim>\<open>connect_ensime_server\<close> (lines 157 to 189), whose handshake is a
  \<^verbatim>\<open>send_request\<close>. Every nested call follows a failed transport send, which uses up
  one entry of the environment's plan.
\<close>

function (sequential)
    send_request :: "pyval \<Rightarrow> state \<Rightarrow> int outcome"
and send :: "pyval \<Rightarrow> state \<Rightarrow> unit outcome"
and connect_ensime_server :: "state \<Rightarrow> bool outcome" where
  "send_request request s =
     (let message = PDict [(''callId'', PInt (call_id s)), (''req'', request)]
      in case send message s of
           Returned u s1 \<Rightarrow> Returned (call_id s1) (s1\<lparr>call_id := call_id s1 + 1\<rparr>)
         | Raised e s1 \<Rightarrow> Raised e s1
         | Pending s1 \<Rightarrow> Pending s1)"
| "send msg s =
     (if ws s then
        (case ws_send msg s of
           Inr s1 \<Rightarrow> Returned () s1
         | Inl s1 \<Rightarrow>
             (case connect_ensime_server (s1\<lparr>send_error_logs := send_error_logs s1 + 1\<rparr>) of
                Returned b s2 \<Rightarrow>
                  (if ws s2 then
                     (case ws_send msg s2 of
                        Inr s3 \<Rightarrow> Returned () s3
                      | Inl s3 \<Rightarrow>
                          Returned () (s3\<lparr>send_error_logs := send_error_logs s3 + 1\<rparr>))
                   else Returned () s2)
              | Raised e s2 \<Rightarrow> Raised e s2
              | Pending s2 \<Rightarrow> Pending s2))
      else Returned () s)"
| "connect_ensime_server s =
     (if running s \<and> number_try_connection s \<noteq> 0 then
        (case server_uri s of
           Inl e \<Rightarrow> Raised e s
         | Inr s1 \<Rightarrow>
             (case send_request connection_info_request (open_transport s1) of
                Returned cid s2 \<Rightarrow> get_response (KInt cid) 30 True s2
              | Raised e s2 \<Rightarrow> Raised e s2
              | Pending s2 \<Rightarrow> Pending s2))
      else Returned False (disable_completely s))"
  by pat_completeness auto
termination
proof (relation "measures [\<lambda>x. case x of Inl (r, s) \<Rightarrow> length (send_plan s)
                               | Inr (Inl (m, s)) \<Rightarrow> length (send_plan s)
                               | Inr (Inr s) \<Rightarrow> length (send_plan s),
                          \<lambda>x. case x of Inl (r, s) \<Rightarrow> 1
                               | Inr (Inl (m, s)) \<Rightarrow> 0
                               | Inr (Inr s) \<Rightarrow> 2]")
qed (auto simp: ws_send_plan server_uri_plan)

declare send_request.simps [simp del] send.simps [simp del] connect_ensime_server.simps [simp del]

text \<open>The state an outcome carries.\<close>

fun outcome_state :: "'a outcome \<Rightarrow> state" where
  "outcome_state (Returned x s) = s"
| "outcome_state (Raised e s) = s"
| "outcome_state (Pending s) = s"

text \<open>The state a run of the polling loop ends in.\<close>

fun loop_state :: "loop_result \<Rightarrow> state" where
  "loop_state (Exited a b s) = s"
| "loop_state (LoopRaised e s) = s"
| "loop_state (Spinning a b s) = s"

text \<open>The exception a call or a run of the polling loop ended with, if it did.\<close>

fun raised :: "'a outcome \<Rightarrow> error option" where
  "raised (Returned x s) = None"
| "raised (Raised e s) = Some e"
| "raised (Pending s) = None"

fun loop_raised :: "loop_result \<Rightarrow> error option" where
  "loop_raised (Exited a b s) = None"
| "loop_raised (LoopRaised e s) = Some e"
| "loop_raised (Spinning a b s) = None"

text \<open>The value a call returned, if it returned.\<close>

fun returned :: "'a outcome \<Rightarrow> 'a option" where
  "returned (Returned x s) = Some x"
| "returned (Raised e s) = None"
| "returned (Pending s) = None"

text \<open>The fields that \<^verbatim>\<open>get_response\<close> neither reads for its control nor writes: all
  but the registry, the handler log, the clock, the schedule and the log of timeouts.\<close>

definition same_session :: "state \<Rightarrow> state \<Rightarrow> bool" where
  "same_session s s' =
     (ws s' = ws s \<and> ensime s' = ensime s \<and> ensime_server s' = ensime_server s
      \<and> call_id s' = call_id s \<and> number_try_connection s' = number_try_connection s
      \<and> running s' = running s \<and> connected s' = connected s \<and> sent s' = sent s
      \<and> warnings s' = warnings s \<and> stops s' = stops s \<and> uncolorized s' = uncolorized s
      \<and> connects s' = connects s \<and> send_plan s' = send_plan s \<and> conn_plan s' = conn_plan s
      \<and> send_error_logs s' = send_error_logs s \<and> read_gap s' = read_gap s)"

text \<open>What a waiting \<^verbatim>\<open>get_response\<close> reads: the registry, the clock and the schedule;
  and the log of the handler.\<close>

definition same_wait :: "state \<Rightarrow> state \<Rightarrow> bool" where
  "same_wait s s' =
     (responses s' = responses s \<and> sched s' = sched s \<and> clock s' = clock s
      \<and> read_gap s' = read_gap s \<and> handled s' = handled s
      \<and> timeout_logs s' = timeout_logs s)"

text \<open>
  A sequence of \<^verbatim>\<open>send_request\<close> calls of one session, made one after the other by a
  caller, with the ids they return in order. An exception of a call ends the sequence, as
  it ends the caller.
\<close>

fun send_requests :: "pyval list \<Rightarrow> state \<Rightarrow> int list outcome" where
  "send_requests [] s = Returned [] s"
| "send_requests (request # requests) s =
     (case send_request request s of
        Returned cid s1 \<Rightarrow>
          (case send_requests requests s1 of
             Returned ids s2 \<Rightarrow> Returned (cid # ids) s2
           | Raised e s2 \<Rightarrow> Raised e s2
           | Pending s2 \<Rightarrow> Pending s2)
      | Raised e s1 \<Rightarrow> Raised e s1
      | Pending s1 \<Rightarrow> Pending s1)"

text \<open>The message that line 212 builds for a request under an id.\<close>

definition request_message :: "int \<Rightarrow> pyval \<Rightarrow> pyval" where
  "request_message cid request = PDict [(''callId'', PInt cid), (''req'', request)]"

text \<open>
  The attempt budget of a session: \<^verbatim>\<open>__init__\<close> sets it to 1 with no transport, and
  only line 182 changes it, right after the only assignment to \<^verbatim>\<open>self.ws\<close>. So a
  session either has its one attempt left and no transport yet, or no attempt left.
\<close>

definition session_inv :: "state \<Rightarrow> bool" where
  "session_inv s =
     (number_try_connection s = 0 \<or> (number_try_connection s = 1 \<and> \<not> ws s))"

section \<open>The receiver loop\<close>

text \<open>
  What one iteration of \<^verbatim>\<open>queue_poll\<close> meets: another thread has run
  \<^verbatim>\<open>teardown\<close>, or the outcome that \<^verbatim>\<open>self.ws.recv()\<close> and \<^verbatim>\<open>json.loads\<close> have if
  they are called: a \<^verbatim>\<open>WebSocketException\<close>, a text that is not JSON (\<open>Text None\<close>,
  for which \<^verbatim>\<open>json.loads\<close> raises ValueError), or a parsed value.
\<close>

datatype recv = WsError | Text "pyval option"

datatype poll_event = Teardown | Recv recv

text \<open>Lines 85 to 92.\<close>

definition dispatch :: "pyval \<Rightarrow> state \<Rightarrow> error \<times> state + state" where
  "dispatch json s =
     (case py_get json ''callId'' of
        Inl e \<Rightarrow> Inl (e, s)
      | Inr cid \<Rightarrow>
          (if cid \<noteq> PNone then
             (case as_key cid of
                None \<Rightarrow> Inl (TypeError, s)
              | Some k \<Rightarrow> Inr (s\<lparr>responses := (responses s)(k \<mapsto> json)\<rparr>))
           else
             (case py_item json ''payload'' of
                Inl e \<Rightarrow> Inl (e, s)
              | Inr payload \<Rightarrow>
                  Inr (if truthy payload then handle_incoming_response cid payload s else s))))"

text \<open>\<^verbatim>\<open>log_and_close\<close> (lines 74 to 79).\<close>

definition log_and_close :: "state \<Rightarrow> state" where
  "log_and_close s = (if connected s then display_ws_warning (shutdown_server s) else s)"

text \<open>Lines 81 to 92: the body under \<^verbatim>\<open>catch(WebSocketException, log_and_close)\<close>.
  Only the transport exception reaches the handler.\<close>

definition receive :: "recv \<Rightarrow> state \<Rightarrow> error \<times> state + state" where
  "receive r s =
     (case r of
        WsError \<Rightarrow> Inr (log_and_close s)
      | Text None \<Rightarrow> Inl (ValueError, s)
      | Text (Some json) \<Rightarrow> dispatch json s)"

text \<open>
  \<^verbatim>\<open>queue_poll\<close> (lines 65 to 93), one event for each iteration; without a transport
  the iteration only sleeps. \<open>Returned\<close>: the loop found \<^verbatim>\<open>running\<close> false.
  \<open>Raised\<close>: an exception left the loop and ended its thread. \<open>Pending\<close>: the loop is
  still running when the events end.
\<close>

fun queue_poll :: "poll_event list \<Rightarrow> state \<Rightarrow> unit outcome" where
  "queue_poll evs s =
     (if running s then
        (case evs of
           [] \<Rightarrow> Pending s
         | Teardown # evs' \<Rightarrow> queue_poll evs' (teardown s)
         | Recv r # evs' \<Rightarrow>
             (if ws s then
                (case receive r s of
                   Inl (e, s') \<Rightarrow> Raised e s'
                 | Inr s' \<Rightarrow> queue_poll evs' (s'\<lparr>clock := clock s' + 0.5\<rparr>))
              else queue_poll evs' (s\<lparr>clock := clock s + 0.5\<rparr>)))
      else Returned () s)"

declare queue_poll.simps [simp del]

text \<open>A reception that the body of the loop handles without an exception of its own: a
  transport error, or a dictionary with a hashable \<^verbatim>\<open>callId\<close> or, when it has none, with
  a \<^verbatim>\<open>payload\<close> field.\<close>

fun accepted :: "poll_event \<Rightarrow> bool" where
  "accepted Teardown = False"
| "accepted (Recv WsError) = True"
| "accepted (Recv (Text None)) = False"
| "accepted (Recv (Text (Some (PDict kvs)))) =
     (if inner_call_id kvs \<noteq> PNone then as_key (inner_call_id kvs) \<noteq> None
      else map_of kvs ''payload'' \<noteq> None)"
| "accepted (Recv (Text (Some v))) = False"

text \<open>A session as \<^verbatim>\<open>__init__\<close> leaves it, with a server process on port 8080, whose
  first connection attempt will raise and where nothing arrives during 120 sleeps of 0.25.\<close>

definition failing_session :: state where
  "failing_session = init\<lparr>ensime := Some 8080, conn_plan := [True],
      sched := replicate 120 \<lparr>dt = 0, arrivals = []\<rparr>\<rparr>"

text \<open>A session that had a transport and was connected, after \<^verbatim>\<open>shutdown_server\<close>:
  the transport object is still there and the \<^verbatim>\<open>connected\<close> flag is false.\<close>

definition after_shutdown :: state where
  "after_shutdown =
     shutdown_server (init\<lparr>ws := True, connected := True, number_try_connection := 0\<rparr>)"

section \<open>Properties of get_response\<close>

lemma gr_loop_found:
  assumes "responses s cid = Some result" "truthy result" "result \<noteq> PStr ''nil''"
    "now - start < timeout"
  shows "gr_loop evs cid timeout start now s =
     (case consume result (s\<lparr>clock := clock s + read_gap s\<rparr>) of
        Inl (e, s') \<Rightarrow> LoopRaised e s'
      | Inr s' \<Rightarrow> Exited (clock s) (clock s + read_gap s) s')"
  using assms by (subst gr_loop.simps) simp

lemma get_response_skip:
  assumes "cid \<in> dom (responses s) \<or> \<not> should_wait"
  shows "get_response cid timeout should_wait s =
     (if read_gap s < timeout then Returned True (s\<lparr>clock := clock s + read_gap s\<rparr>)
      else Returned False
        (s\<lparr>clock := clock s + read_gap s, timeout_logs := timeout_logs s + 1\<rparr>))"
proof -
  have w: "(should_wait \<and> cid \<notin> dom (responses (s\<lparr>clock := clock s + read_gap s\<rparr>))) = False"
    using assms by auto
  show ?thesis unfolding get_response_def Let_def w by auto
qed

text \<open>
  C10 (as amended). When a value for the id is already in \<^verbatim>\<open>responses\<close> as
  \<^verbatim>\<open>get_response\<close> is entered, or \<^verbatim>\<open>should_wait\<close> is false, the call returns at
  once, after the two clock readings of line 225 and nothing else: nothing is forwarded to
  the handler and nothing is deleted. It returns true when the timeout is greater than the
  time between the two readings, and false, with the warning logged, otherwise (for every
  timeout of 0 or less). With \<^verbatim>\<open>should_wait\<close> false this holds even when there is no
  value for the id.
\<close>

theorem get_response_no_wait:
  assumes "cid \<in> dom (responses s) \<or> \<not> should_wait"
  shows "get_response cid timeout should_wait s =
     (if read_gap s < timeout then Returned True (s\<lparr>clock := clock s + read_gap s\<rparr>)
      else Returned False
        (s\<lparr>clock := clock s + read_gap s, timeout_logs := timeout_logs s + 1\<rparr>))"
  using assms by (rule get_response_skip)

theorem get_response_no_wait_counterexample:
  "responses init (KInt 7) = None
   \<and> get_response (KInt 7) 0 False init = Returned False (init\<lparr>timeout_logs := 1\<rparr>)
   \<and> get_response (KInt 7) 0 True
        (init\<lparr>responses := [KInt 7 \<mapsto> PDict [(''callId'', PInt 7), (''payload'', PNone)]]\<rparr>)
      = Returned False
         (init\<lparr>responses := [KInt 7 \<mapsto> PDict [(''callId'', PInt 7), (''payload'', PNone)]],
               timeout_logs := 1\<rparr>)
   \<and> get_response (KInt 7) (1 / 1000) False (init\<lparr>read_gap := 1 / 500\<rparr>)
      = Returned False (init\<lparr>read_gap := 1 / 500, clock := 1 / 500, timeout_logs := 1\<rparr>)"
  by (simp add: get_response_skip init_def)

theorem get_response_no_wait_witness:
  "responses init (KInt 7) = None
   \<and> get_response (KInt 7) 10 False init = Returned True init
   \<and> get_response (KInt 7) 10 True
        (init\<lparr>responses := [KInt 7 \<mapsto> PDict [(''callId'', PInt 7), (''payload'', PNone)]]\<rparr>)
      = Returned True
         (init\<lparr>responses := [KInt 7 \<mapsto> PDict [(''callId'', PInt 7), (''payload'', PNone)]]\<rparr>)"
proof -
  let ?s = "init\<lparr>responses := [KInt 7 \<mapsto> PDict [(''callId'', PInt 7), (''payload'', PNone)]]\<rparr>"
  have a: "get_response (KInt 7) 10 False init = Returned True init"
    using get_response_no_wait [of "KInt 7" init False 10] by (simp add: init_def)
  have b: "get_response (KInt 7) 10 True ?s = Returned True ?s"
    using get_response_no_wait [of "KInt 7" ?s True 10] by (simp add: init_def)
  show ?thesis using a b by (simp add: init_def)
qed

text \<open>
  C9. In an iteration of the loop of \<^verbatim>\<open>get_response\<close> that finds a non-empty
  dictionary under the awaited id, the deletion is keyed by the (hashable) id read from
  inside the dictionary, not by the awaited id: when that id is a key of the registry and
  the dictionary has a payload field, the entry under the inner id is the one removed; when
  the inner id is absent (read as \<^verbatim>\<open>None\<close>) or is not a key of the registry, the call
  ends with an uncaught KeyError and the registry is as before, so the entry under the
  awaited id stays.
\<close>

theorem deletion_keyed_by_inner_call_id:
  assumes "responses s cid = Some (PDict kvs)" and "kvs \<noteq> []" and "now - start < timeout"
    and "as_key (inner_call_id kvs) = Some k"
  shows "(k \<in> dom (responses s) \<and> map_of kvs ''payload'' \<noteq> None \<longrightarrow>
            (\<exists>s'. gr_loop evs cid timeout start now s
                   = Exited (clock s) (clock s + read_gap s) s'
                 \<and> responses s' = (responses s)(k := None)))
       \<and> (k \<notin> dom (responses s) \<longrightarrow>
            (\<exists>s'. gr_loop evs cid timeout start now s = LoopRaised KeyError s'
                 \<and> responses s' = responses s))"
proof -
  have t: "truthy (PDict kvs)" "PDict kvs \<noteq> PStr ''nil''" using assms(2) by simp_all
  note found = gr_loop_found [OF assms(1) t assms(3), of evs]
  show ?thesis
    using assms(4) unfolding found
    by (auto simp: consume_def del_response_def inner_call_id_def handle_incoming_response_def
        split: option.splits)
qed

theorem deletion_keyed_by_inner_call_id_witness:
  "(\<exists>s'. gr_loop [] (KInt 7) 10 0 0
            (init\<lparr>responses := [KInt 7 \<mapsto> PDict [(''callId'', PInt 8), (''payload'', PNone)],
                                 KInt 8 \<mapsto> PNone]\<rparr>) = Exited 0 0 s'
         \<and> responses s' = [KInt 7 \<mapsto> PDict [(''callId'', PInt 8), (''payload'', PNone)]])
   \<and> (\<exists>s'. gr_loop [] (KInt 7) 10 0 0
            (init\<lparr>responses := [KInt 7 \<mapsto> PDict [(''payload'', PNone)]]\<rparr>)
              = LoopRaised KeyError s'
         \<and> responses s' = [KInt 7 \<mapsto> PDict [(''payload'', PNone)]])"
proof -
  let ?e = "[(''callId'', PInt 8), (''payload'', PNone)]"
  let ?s1 = "init\<lparr>responses := [KInt 7 \<mapsto> PDict ?e, KInt 8 \<mapsto> PNone]\<rparr>"
  let ?s2 = "init\<lparr>responses := [KInt 7 \<mapsto> PDict [(''payload'', PNone)]]\<rparr>"
  have a: "\<exists>s'. gr_loop [] (KInt 7) 10 0 0 ?s1 = Exited (clock ?s1) (clock ?s1 + read_gap ?s1) s'
                 \<and> responses s' = (responses ?s1)(KInt 8 := None)"
    using deletion_keyed_by_inner_call_id [of ?s1 "KInt 7" ?e 0 0 10 "KInt 8" "[]"]
    by (simp add: inner_call_id_def)
  have b: "\<exists>s'. gr_loop [] (KInt 7) 10 0 0 ?s2 = LoopRaised KeyError s'
                 \<and> responses s' = responses ?s2"
    using deletion_keyed_by_inner_call_id
      [of ?s2 "KInt 7" "[(''payload'', PNone)]" 0 0 10 KNone "[]"]
    by (simp add: inner_call_id_def)
  have c: "clock ?s1 = 0" "read_gap ?s1 = 0" by (simp_all add: init_def)
  have d: "(responses ?s1)(KInt 8 := None) = [KInt 7 \<mapsto> PDict ?e]"
    by (auto simp: fun_eq_iff)
  show ?thesis using a b unfolding c d by simp
qed

lemma deliver_eq: "deliver kvs m = m ++ map_of (rev kvs)"
proof (induction kvs m rule: deliver.induct)
  case (1 m)
  then show ?case by simp
next
  case (2 k v kvs m)
  have "deliver ((k, v) # kvs) m = deliver kvs (m(k \<mapsto> v))" by simp
  also have "\<dots> = m(k \<mapsto> v) ++ map_of (rev kvs)" by (rule "2.IH")
  also have "\<dots> = m ++ map_of (rev ((k, v) # kvs))"
    by (auto simp: map_add_def fun_eq_iff split: option.splits)
  finally show ?case .
qed

lemma deliver_other: "cid \<notin> fst ` set kvs \<Longrightarrow> deliver kvs m cid = m cid"
  by (simp add: deliver_eq map_add_def map_of_eq_None_iff [THEN iffD2] split: option.splits)

lemma deliver_new:
  assumes "deliver kvs m cid = Some v" and "m cid \<noteq> Some v"
  shows "(cid, v) \<in> set kvs"
proof -
  have "map_of (rev kvs) cid = Some v"
    using assms by (auto simp: deliver_eq map_add_def split: option.splits)
  then have "(cid, v) \<in> set (rev kvs)" by (rule map_of_SomeD)
  then show ?thesis by simp
qed

lemma deliver_append: "deliver (xs @ ys) m = deliver ys (deliver xs m)"
  by (simp add: deliver_eq)

lemma gr_loop_nil_step:
  assumes "responses s cid = Some v" "\<not> truthy v \<or> v = PStr ''nil''" "now - start < timeout"
  shows "gr_loop (ev # evs) cid timeout start now s =
         gr_loop evs cid timeout start now
           (s\<lparr>clock := clock s + dt ev, responses := deliver (arrivals ev) (responses s),
              sched := evs\<rparr>)"
  using assms by (subst gr_loop.simps) auto

lemma gr_loop_nil_end:
  assumes "responses s cid = Some v" "\<not> truthy v \<or> v = PStr ''nil''" "now - start < timeout"
  shows "gr_loop [] cid timeout start now s = Spinning start now s"
  using assms by (subst gr_loop.simps) auto

lemma nil_spin:
  assumes "responses s cid = Some v" "\<not> truthy v \<or> v = PStr ''nil''" "now - start < timeout"
    "\<forall>ev\<in>set evs. cid \<notin> fst ` set (arrivals ev)"
  shows "\<exists>s'. gr_loop (evs @ rest) cid timeout start now s = gr_loop rest cid timeout start now s'
              \<and> responses s' cid = Some v \<and> clock s' = clock s + sum_list (map dt evs)
              \<and> handled s' = handled s \<and> read_gap s' = read_gap s"
  using assms
proof (induction evs arbitrary: s)
  case Nil
  then show ?case by (intro exI [of _ s]) simp
next
  case (Cons ev evs)
  let ?s1 = "s\<lparr>clock := clock s + dt ev, responses := deliver (arrivals ev) (responses s),
              sched := evs @ rest\<rparr>"
  have r: "responses ?s1 cid = Some v"
    using Cons.prems(1,4) by (simp add: deliver_other)
  obtain s' where s': "gr_loop (evs @ rest) cid timeout start now ?s1
        = gr_loop rest cid timeout start now s'" "responses s' cid = Some v"
      "clock s' = clock ?s1 + sum_list (map dt evs)" "handled s' = handled ?s1"
      "read_gap s' = read_gap ?s1"
    using Cons.IH [OF r Cons.prems(2,3)] Cons.prems(4) by auto
  have "gr_loop ((ev # evs) @ rest) cid timeout start now s
        = gr_loop (evs @ rest) cid timeout start now ?s1"
    using gr_loop_nil_step [OF Cons.prems(1,2,3), of ev "evs @ rest"] by simp
  with s' show ?case by (intro exI [of _ s']) (simp add: algebra_simps)
qed

lemma nil_entry_keeps_waiting:
  assumes "responses s cid = Some v" and "\<not> truthy v \<or> v = PStr ''nil''"
    and "now - start < timeout"
    and "\<forall>ev\<in>set evs. cid \<notin> fst ` set (arrivals ev)"
  shows "\<exists>s'. gr_loop evs cid timeout start now s = Spinning start now s'
              \<and> responses s' cid = Some v \<and> clock s' = clock s + sum_list (map dt evs)"
proof -
  obtain s' where s': "gr_loop (evs @ []) cid timeout start now s = gr_loop [] cid timeout start now s'"
      "responses s' cid = Some v" "clock s' = clock s + sum_list (map dt evs)"
    using nil_spin [OF assms, of "[]"] by auto
  have "gr_loop [] cid timeout start now s' = Spinning start now s'"
    using gr_loop_nil_end [OF s'(2) assms(2,3)] .
  with s' show ?thesis by auto
qed


section \<open>What get_response leaves alone\<close>

lemma same_session_refl [simp]: "same_session s s"
  by (simp add: same_session_def)

lemma same_session_trans: "same_session s s1 \<Longrightarrow> same_session s1 s2 \<Longrightarrow> same_session s s2"
  by (simp add: same_session_def)

lemma same_session_upd [simp]:
  "same_session (s1\<lparr>clock := c\<rparr>) s2 = same_session s1 s2"
  "same_session (s1\<lparr>responses := r\<rparr>) s2 = same_session s1 s2"
  "same_session (s1\<lparr>sched := e\<rparr>) s2 = same_session s1 s2"
  "same_session (s1\<lparr>handled := h\<rparr>) s2 = same_session s1 s2"
  "same_session (s1\<lparr>timeout_logs := n\<rparr>) s2 = same_session s1 s2"
  "same_session s1 (s2\<lparr>clock := c\<rparr>) = same_session s1 s2"
  "same_session s1 (s2\<lparr>responses := r\<rparr>) = same_session s1 s2"
  "same_session s1 (s2\<lparr>sched := e\<rparr>) = same_session s1 s2"
  "same_session s1 (s2\<lparr>handled := h\<rparr>) = same_session s1 s2"
  "same_session s1 (s2\<lparr>timeout_logs := n\<rparr>) = same_session s1 s2"
  by (simp_all add: same_session_def)

lemma consume_frame:
  "same_session s (case consume v s of Inl (e, s') \<Rightarrow> s' | Inr s' \<Rightarrow> s')"
  by (auto simp: consume_def del_response_def handle_incoming_response_def
      Let_def split: sum.splits option.splits if_splits)

lemma consume_loop_frame:
  "same_session s (loop_state (case consume v (s\<lparr>clock := c\<rparr>) of
      Inl (e, s') \<Rightarrow> LoopRaised e s' | Inr s' \<Rightarrow> Exited a b s'))"
  using consume_frame [of "s\<lparr>clock := c\<rparr>" v]
  by (cases "consume v (s\<lparr>clock := c\<rparr>)") auto

lemma gr_loop_frame:
  "same_session s (loop_state (gr_loop evs cid timeout start now s))"
proof (induction evs arbitrary: s now)
  case Nil
  show ?case
    by (subst gr_loop.simps) (simp add: consume_loop_frame split: option.splits)
next
  case (Cons ev evs)
  let ?s1 = "s\<lparr>clock := clock s + 0.25 + dt ev,
              responses := deliver (arrivals ev) (responses s), sched := evs\<rparr>"
  let ?s2 = "s\<lparr>clock := clock s + dt ev,
              responses := deliver (arrivals ev) (responses s), sched := evs\<rparr>"
  have a: "same_session s (loop_state (gr_loop evs cid timeout start (clock ?s1) ?s1))"
    using Cons.IH [of ?s1 "clock ?s1"] by simp
  have b: "same_session s (loop_state (gr_loop evs cid timeout start now ?s2))"
    using Cons.IH [of ?s2 now] by simp
  show ?case
    using a b by (subst gr_loop.simps) (simp add: consume_loop_frame Let_def split: option.splits)
qed

lemma get_response_frame: "same_session s (outcome_state (get_response cid timeout w s))"
proof (cases "cid \<in> dom (responses s) \<or> \<not> w")
  case True
  then show ?thesis by (simp add: get_response_skip)
next
  case False
  let ?s0 = "s\<lparr>clock := clock s + read_gap s\<rparr>"
  have w: "(w \<and> cid \<notin> dom (responses ?s0)) = True" using False by auto
  show ?thesis
    using gr_loop_frame [of ?s0 "sched ?s0" cid timeout "clock s" "clock s + read_gap s"]
    unfolding get_response_def Let_def w
    by (cases "gr_loop (sched ?s0) cid timeout (clock s) (clock s + read_gap s) ?s0") auto
qed

section \<open>The wait of get_response\<close>

lemma sleeps_nonneg:
  "\<forall>e\<in>set evs. 0 \<le> dt e \<Longrightarrow> 0 \<le> sum_list (map (\<lambda>e. 1 / 4 + dt e) evs)"
  by (induction evs) auto

lemma gr_loop_sleep:
  assumes "responses s cid = None" and "now - start < timeout"
  shows "gr_loop (ev # evs) cid timeout start now s =
     gr_loop evs cid timeout start (clock s + 1 / 4 + dt ev)
       (s\<lparr>clock := clock s + 1 / 4 + dt ev,
          responses := deliver (arrivals ev) (responses s), sched := evs\<rparr>)"
  using assms by (subst gr_loop.simps) (simp add: Let_def)

lemma gr_loop_timed_out:
  "\<not> now - start < timeout \<Longrightarrow> gr_loop evs cid timeout start now s = Exited start now s"
  by (subst gr_loop.simps) simp

text \<open>The iterations that sleep because nothing is stored under the id yet.\<close>

lemma wait_prefix:
  assumes "responses s cid = None" and "now = clock s"
    and "\<forall>e\<in>set pre. cid \<notin> fst ` set (arrivals e) \<and> 0 \<le> dt e"
    and "now - start + sum_list (map (\<lambda>e. 1 / 4 + dt e) pre) < timeout"
  shows "\<exists>s1. gr_loop (pre @ rest) cid timeout start now s
               = gr_loop rest cid timeout start (clock s1) s1
            \<and> clock s1 = clock s + sum_list (map (\<lambda>e. 1 / 4 + dt e) pre)
            \<and> responses s1 = deliver (concat (map arrivals pre)) (responses s)
            \<and> handled s1 = handled s \<and> same_session s s1
            \<and> timeout_logs s1 = timeout_logs s"
  using assms
proof (induction pre arbitrary: s now)
  case Nil
  then show ?case by (intro exI [of _ s]) simp
next
  case (Cons e pre)
  let ?s1 = "s\<lparr>clock := clock s + 1 / 4 + dt e,
               responses := deliver (arrivals e) (responses s), sched := pre @ rest\<rparr>"
  have nn: "0 \<le> sum_list (map (\<lambda>e. 1 / 4 + dt e) pre)" "0 \<le> dt e"
    using Cons.prems(3) by (simp_all add: sleeps_nonneg)
  have t: "now - start < timeout" using Cons.prems(4) nn by simp
  have step: "gr_loop ((e # pre) @ rest) cid timeout start now s
      = gr_loop (pre @ rest) cid timeout start (clock ?s1) ?s1"
    using gr_loop_sleep [OF Cons.prems(1) t, of e "pre @ rest"] by simp
  have r: "responses ?s1 cid = None" using Cons.prems(1,3) by (simp add: deliver_other)
  have "\<exists>s2. gr_loop (pre @ rest) cid timeout start (clock ?s1) ?s1
               = gr_loop rest cid timeout start (clock s2) s2
            \<and> clock s2 = clock ?s1 + sum_list (map (\<lambda>e. 1 / 4 + dt e) pre)
            \<and> responses s2 = deliver (concat (map arrivals pre)) (responses ?s1)
            \<and> handled s2 = handled ?s1 \<and> same_session ?s1 s2
            \<and> timeout_logs s2 = timeout_logs ?s1"
  proof (rule Cons.IH [OF r])
    show "clock ?s1 = clock ?s1" by simp
    show "\<forall>e\<in>set pre. cid \<notin> fst ` set (arrivals e) \<and> 0 \<le> dt e" using Cons.prems(3) by simp
    show "clock ?s1 - start + sum_list (map (\<lambda>e. 1 / 4 + dt e) pre) < timeout"
      using Cons.prems(2,4) by (simp add: algebra_simps)
  qed
  then obtain s2 where s2: "gr_loop (pre @ rest) cid timeout start (clock ?s1) ?s1
               = gr_loop rest cid timeout start (clock s2) s2"
      "clock s2 = clock ?s1 + sum_list (map (\<lambda>e. 1 / 4 + dt e) pre)"
      "responses s2 = deliver (concat (map arrivals pre)) (responses ?s1)"
      "handled s2 = handled ?s1" "same_session ?s1 s2" "timeout_logs s2 = timeout_logs ?s1"
    by blast
  show ?case
    using step s2 by (intro exI [of _ s2]) (simp add: deliver_append algebra_simps)
qed

text \<open>The wait ends with true when an envelope that carries the id and a payload is stored
  during a sleep that ends before the timeout.\<close>

lemma wait_finds_envelope:
  assumes "responses s cid = None" and "now = clock s"
    and "\<forall>e\<in>set pre. cid \<notin> fst ` set (arrivals e) \<and> 0 \<le> dt e" and "0 \<le> dt ev"
    and "map_of (rev (arrivals ev)) cid = Some (PDict kvs)"
    and "receiver_entry cid (PDict kvs)" and "map_of kvs ''payload'' = Some p"
    and "now - start + sum_list (map (\<lambda>e. 1 / 4 + dt e) (pre @ [ev])) < timeout"
  shows "\<exists>c s'. gr_loop (pre @ ev # rest) cid timeout start now s = Exited c (c + read_gap s) s'
            \<and> c = clock s + sum_list (map (\<lambda>e. 1 / 4 + dt e) (pre @ [ev]))
            \<and> responses s' cid = None
            \<and> handled s' = handled s @ (if truthy p then [(inner_call_id kvs, p)] else [])
            \<and> same_session s s' \<and> timeout_logs s' = timeout_logs s"
proof -
  have pre_t: "now - start + sum_list (map (\<lambda>e. 1 / 4 + dt e) pre) < timeout"
    using assms(4,8) by simp
  obtain s1 where s1: "gr_loop (pre @ ev # rest) cid timeout start now s
               = gr_loop (ev # rest) cid timeout start (clock s1) s1"
      "clock s1 = clock s + sum_list (map (\<lambda>e. 1 / 4 + dt e) pre)"
      "responses s1 = deliver (concat (map arrivals pre)) (responses s)"
      "handled s1 = handled s" "same_session s s1" "timeout_logs s1 = timeout_logs s"
    using wait_prefix [OF assms(1,2,3) pre_t, of "ev # rest"] by blast
  have "cid \<notin> fst ` set (concat (map arrivals pre))" using assms(3) by auto
  then have n1: "responses s1 cid = None"
    using s1(3) assms(1) by (simp add: deliver_other)
  have t1: "clock s1 - start < timeout" using s1(2) assms(2,4,8) by simp
  let ?s2 = "s1\<lparr>clock := clock s1 + 1 / 4 + dt ev,
               responses := deliver (arrivals ev) (responses s1), sched := rest\<rparr>"
  have step: "gr_loop (ev # rest) cid timeout start (clock s1) s1
      = gr_loop rest cid timeout start (clock ?s2) ?s2"
    using gr_loop_sleep [OF n1 t1, of ev rest] by simp
  have r2: "responses ?s2 cid = Some (PDict kvs)" using assms(5) by (simp add: deliver_eq)
  have ne: "kvs \<noteq> []" using assms(7) by auto
  have t: "truthy (PDict kvs)" "PDict kvs \<noteq> PStr ''nil''" using ne by simp_all
  have t2: "clock ?s2 - start < timeout" using s1(2) assms(2,8) by (simp add: algebra_simps)
  let ?s3 = "?s2\<lparr>clock := clock ?s2 + read_gap ?s2\<rparr>"
  have found: "gr_loop rest cid timeout start (clock ?s2) ?s2 =
       (case consume (PDict kvs) ?s3 of
          Inl (e, s') \<Rightarrow> LoopRaised e s'
        | Inr s' \<Rightarrow> Exited (clock ?s2) (clock ?s2 + read_gap ?s2) s')"
    using gr_loop_found [OF r2 t t2] .
  have k: "as_key (inner_call_id kvs) = Some cid"
    using assms(6) by (simp add: receiver_entry_def)
  let ?s4 = "(if truthy p then handle_incoming_response (inner_call_id kvs) p ?s3 else ?s3)"
  have c: "consume (PDict kvs) ?s3 = Inr (?s4\<lparr>responses := (responses ?s4)(cid := None)\<rparr>)"
    using k assms(7) r2
    by (auto simp: consume_def del_response_def inner_call_id_def
        handle_incoming_response_def Let_def split: option.splits)
  have g: "read_gap ?s2 = read_gap s" using s1(5) by (simp add: same_session_def)
  show ?thesis
    using s1 step found g unfolding c
    by (intro exI [of _ "clock ?s2"]
          exI [of _ "?s4\<lparr>responses := (responses ?s4)(cid := None)\<rparr>"])
      (simp add: handle_incoming_response_def algebra_simps)
qed

text \<open>The wait ends with false when nothing is stored under the id.\<close>

lemma wait_times_out:
  assumes "\<forall>e\<in>set evs. cid \<notin> fst ` set (arrivals e) \<and> 0 \<le> dt e \<and> dt e \<le> d"
    and "responses s cid = None" and "now = clock s"
    and "now - start < timeout + 1 / 4 + d"
    and "timeout \<le> now - start + of_nat (length evs) / 4"
  shows "\<exists>n s'. n \<le> length evs
           \<and> gr_loop evs cid timeout start now s = Exited start (clock s') s'
           \<and> responses s' = deliver (concat (map arrivals (take n evs))) (responses s)
           \<and> handled s' = handled s \<and> timeout_logs s' = timeout_logs s
           \<and> timeout \<le> clock s' - start \<and> clock s' - start < timeout + 1 / 4 + d"
  using assms
proof (induction evs arbitrary: s now)
  case Nil
  then have "\<not> now - start < timeout" by simp
  then show ?case
    using Nil.prems by (intro exI [of _ 0] exI [of _ s]) (simp add: gr_loop_timed_out)
next
  case (Cons e evs)
  show ?case
  proof (cases "now - start < timeout")
    case False
    then show ?thesis
      using Cons.prems(3,4) by (intro exI [of _ 0] exI [of _ s]) (simp add: gr_loop_timed_out)
  next
    case True
    let ?s1 = "s\<lparr>clock := clock s + 1 / 4 + dt e,
                  responses := deliver (arrivals e) (responses s), sched := evs\<rparr>"
    have e: "cid \<notin> fst ` set (arrivals e)" "0 \<le> dt e" "dt e \<le> d"
      using Cons.prems(1) by simp_all
    have step: "gr_loop (e # evs) cid timeout start now s
          = gr_loop evs cid timeout start (clock ?s1) ?s1"
      using gr_loop_sleep [OF Cons.prems(2) True, of e evs] by simp
    have "\<exists>n s'. n \<le> length evs
           \<and> gr_loop evs cid timeout start (clock ?s1) ?s1 = Exited start (clock s') s'
           \<and> responses s' = deliver (concat (map arrivals (take n evs))) (responses ?s1)
           \<and> handled s' = handled ?s1 \<and> timeout_logs s' = timeout_logs ?s1
           \<and> timeout \<le> clock s' - start \<and> clock s' - start < timeout + 1 / 4 + d"
    proof (rule Cons.IH)
      show "\<forall>e\<in>set evs. cid \<notin> fst ` set (arrivals e) \<and> 0 \<le> dt e \<and> dt e \<le> d"
        using Cons.prems(1) by simp
      show "responses ?s1 cid = None" using Cons.prems(2) e(1) by (simp add: deliver_other)
      show "clock ?s1 = clock ?s1" by simp
      show "clock ?s1 - start < timeout + 1 / 4 + d" using True e(3) Cons.prems(3) by simp
      show "timeout \<le> clock ?s1 - start + of_nat (length evs) / 4"
        using Cons.prems(3,5) e(2) by (simp add: field_simps)
    qed
    then obtain n s' where r: "n \<le> length evs"
      "gr_loop evs cid timeout start (clock ?s1) ?s1 = Exited start (clock s') s'"
      "responses s' = deliver (concat (map arrivals (take n evs))) (responses ?s1)"
      "handled s' = handled ?s1" "timeout_logs s' = timeout_logs ?s1"
      "timeout \<le> clock s' - start" "clock s' - start < timeout + 1 / 4 + d" by blast
    show ?thesis
      using step r by (intro exI [of _ "Suc n"] exI [of _ s']) (simp add: deliver_append)
  qed
qed

text \<open>A wait that ends with true has met a value that is truthy and not \<^verbatim>\<open>"nil"\<close>.\<close>

lemma loop_true_only_if:
  assumes "gr_loop evs cid timeout start now s = Exited start' now' s'"
    and "now' - start' < timeout"
  shows "(\<exists>v. responses s cid = Some v \<and> qualifying v)
       \<or> (\<exists>ev\<in>set evs. \<exists>v. (cid, v) \<in> set (arrivals ev) \<and> qualifying v)"
  using assms
proof (induction evs arbitrary: s now)
  case Nil
  then show ?case
    by (subst (asm) gr_loop.simps) (auto simp: qualifying_def split: if_splits option.splits)
next
  case (Cons ev evs)
  have t: "now - start < timeout"
    using Cons.prems by (subst (asm) gr_loop.simps) (auto split: if_splits)
  show ?case
  proof (cases "responses s cid")
    case None
    let ?s1 = "s\<lparr>clock := clock s + 1 / 4 + dt ev,
                  responses := deliver (arrivals ev) (responses s), sched := evs\<rparr>"
    have "gr_loop evs cid timeout start (clock ?s1) ?s1 = Exited start' now' s'"
      using Cons.prems(1) gr_loop_sleep [OF None t, of ev evs] by simp
    from Cons.IH [OF this Cons.prems(2)]
    show ?thesis
    proof
      assume "\<exists>v. responses ?s1 cid = Some v \<and> qualifying v"
      then obtain v where "deliver (arrivals ev) (responses s) cid = Some v" "qualifying v"
        by auto
      moreover have "(cid, v) \<in> set (arrivals ev)"
        using deliver_new [OF calculation(1)] None by simp
      ultimately show ?thesis by auto
    next
      assume "\<exists>ev\<in>set evs. \<exists>v. (cid, v) \<in> set (arrivals ev) \<and> qualifying v"
      then show ?thesis by auto
    qed
  next
    case (Some v)
    show ?thesis
    proof (cases "qualifying v")
      case True
      then show ?thesis using Some by simp
    next
      case False
      let ?s1 = "s\<lparr>clock := clock s + dt ev,
                  responses := deliver (arrivals ev) (responses s), sched := evs\<rparr>"
      have nq: "\<not> truthy v \<or> v = PStr ''nil''" using False by (auto simp: qualifying_def)
      have "gr_loop evs cid timeout start now ?s1 = Exited start' now' s'"
        using Cons.prems(1) gr_loop_nil_step [OF Some nq t, of ev evs] by simp
      from Cons.IH [OF this Cons.prems(2)]
      show ?thesis
      proof
        assume "\<exists>w. responses ?s1 cid = Some w \<and> qualifying w"
        then obtain w where w: "deliver (arrivals ev) (responses s) cid = Some w" "qualifying w"
          by auto
        have "(cid, w) \<in> set (arrivals ev)"
          using deliver_new [OF w(1)] Some False w(2) by auto
        then show ?thesis using w(2) by auto
      next
        assume "\<exists>ev\<in>set evs. \<exists>v. (cid, v) \<in> set (arrivals ev) \<and> qualifying v"
        then show ?thesis by auto
      qed
    qed
  qed
qed

lemma get_response_waits:
  assumes "cid \<notin> dom (responses s)"
  shows "get_response cid timeout True s =
     (case gr_loop (sched s) cid timeout (clock s) (clock s + read_gap s)
             (s\<lparr>clock := clock s + read_gap s\<rparr>) of
        Exited start' now' s' \<Rightarrow>
          (if now' - start' \<ge> timeout
           then Returned False (s'\<lparr>timeout_logs := timeout_logs s' + 1\<rparr>)
           else Returned True s')
      | LoopRaised e s' \<Rightarrow> Raised e s'
      | Spinning start' now' s' \<Rightarrow> Pending s')"
proof -
  have w: "(True \<and> cid \<notin> dom (responses (s\<lparr>clock := clock s + read_gap s\<rparr>))) = True"
    using assms by simp
  show ?thesis unfolding get_response_def Let_def w by simp
qed

lemma get_response_finds:
  assumes "cid \<notin> dom (responses s)" and "0 \<le> read_gap s" and "sched s = pre @ ev # rest"
    and "\<forall>e\<in>set pre. cid \<notin> fst ` set (arrivals e) \<and> 0 \<le> dt e" and "0 \<le> dt ev"
    and "map_of (rev (arrivals ev)) cid = Some (PDict kvs)"
    and "receiver_entry cid (PDict kvs)" and "map_of kvs ''payload'' = Some p"
    and "read_gap s + sum_list (map (\<lambda>e. 1 / 4 + dt e) (pre @ [ev])) < timeout"
  shows "\<exists>s'. get_response cid timeout True s = Returned True s'
            \<and> responses s' cid = None
            \<and> handled s' = handled s @ (if truthy p then [(inner_call_id kvs, p)] else [])
            \<and> same_session s s' \<and> timeout_logs s' = timeout_logs s"
proof -
  let ?s0 = "s\<lparr>clock := clock s + read_gap s\<rparr>"
  have n: "responses ?s0 cid = None" using assms(1) by auto
  have nn: "0 \<le> sum_list (map (\<lambda>e. 1 / 4 + dt e) (pre @ [ev]))"
    using assms(4,5) by (intro sleeps_nonneg) auto
  have "\<exists>c s'. gr_loop (pre @ ev # rest) cid timeout (clock s) (clock s + read_gap s) ?s0
              = Exited c (c + read_gap ?s0) s'
            \<and> c = clock ?s0 + sum_list (map (\<lambda>e. 1 / 4 + dt e) (pre @ [ev]))
            \<and> responses s' cid = None
            \<and> handled s' = handled ?s0 @ (if truthy p then [(inner_call_id kvs, p)] else [])
            \<and> same_session ?s0 s' \<and> timeout_logs s' = timeout_logs ?s0"
  proof (rule wait_finds_envelope [OF n _ assms(4,5,6,7,8)])
    show "clock s + read_gap s = clock ?s0" by simp
    show "clock s + read_gap s - clock s
        + sum_list (map (\<lambda>e. 1 / 4 + dt e) (pre @ [ev])) < timeout"
      using assms(9) by simp
  qed
  then obtain c s' where r:
    "gr_loop (pre @ ev # rest) cid timeout (clock s) (clock s + read_gap s) ?s0
       = Exited c (c + read_gap s) s'"
    "responses s' cid = None"
    "handled s' = handled s @ (if truthy p then [(inner_call_id kvs, p)] else [])"
    "same_session s s'" "timeout_logs s' = timeout_logs s"
    by auto
  have g: "read_gap s < timeout" using assms(9) nn by simp
  have "get_response cid timeout True s = Returned True s'"
    using r(1) g assms(3) by (simp add: get_response_waits [OF assms(1)])
  then show ?thesis using r by blast
qed

lemma get_response_times_out:
  assumes "cid \<notin> dom (responses s)" and "0 \<le> timeout" and "0 \<le> read_gap s"
    and "read_gap s \<le> d"
    and "\<forall>e\<in>set (sched s). cid \<notin> fst ` set (arrivals e) \<and> 0 \<le> dt e \<and> dt e \<le> d"
    and "timeout \<le> of_nat (length (sched s)) / 4"
  shows "\<exists>n s''. n \<le> length (sched s)
           \<and> get_response cid timeout True s = Returned False s''
           \<and> responses s'' = deliver (concat (map arrivals (take n (sched s)))) (responses s)
           \<and> handled s'' = handled s
           \<and> timeout \<le> clock s'' - clock s \<and> clock s'' - clock s < timeout + 1 / 4 + d"
proof -
  let ?s0 = "s\<lparr>clock := clock s + read_gap s\<rparr>"
  have "\<exists>n s'. n \<le> length (sched s)
           \<and> gr_loop (sched s) cid timeout (clock s) (clock s + read_gap s) ?s0
               = Exited (clock s) (clock s') s'
           \<and> responses s' = deliver (concat (map arrivals (take n (sched s)))) (responses ?s0)
           \<and> handled s' = handled ?s0 \<and> timeout_logs s' = timeout_logs ?s0
           \<and> timeout \<le> clock s' - clock s \<and> clock s' - clock s < timeout + 1 / 4 + d"
  proof (rule wait_times_out [OF assms(5)])
    show "responses ?s0 cid = None" using assms(1) by auto
    show "clock s + read_gap s = clock ?s0" by simp
    show "clock s + read_gap s - clock s < timeout + 1 / 4 + d" using assms(2,4) by simp
    show "timeout \<le> clock s + read_gap s - clock s + of_nat (length (sched s)) / 4"
      using assms(3,6) by simp
  qed
  then obtain n s' where r: "n \<le> length (sched s)"
    "gr_loop (sched s) cid timeout (clock s) (clock s + read_gap s) ?s0
       = Exited (clock s) (clock s') s'"
    "responses s' = deliver (concat (map arrivals (take n (sched s)))) (responses s)"
    "handled s' = handled s"
    "timeout \<le> clock s' - clock s" "clock s' - clock s < timeout + 1 / 4 + d"
    by auto
  have "get_response cid timeout True s
      = Returned False (s'\<lparr>timeout_logs := timeout_logs s' + 1\<rparr>)"
    using r(2,5) by (simp add: get_response_waits [OF assms(1)])
  then show ?thesis
    using r by (intro exI [of _ n] exI [of _ "s'\<lparr>timeout_logs := timeout_logs s' + 1\<rparr>"]) simp
qed

lemma get_response_true_only_if:
  assumes "cid \<notin> dom (responses s)" and "get_response cid timeout True s = Returned True s'"
  shows "\<exists>ev\<in>set (sched s). \<exists>v. (cid, v) \<in> set (arrivals ev) \<and> qualifying v"
proof -
  let ?s0 = "s\<lparr>clock := clock s + read_gap s\<rparr>"
  have n: "responses ?s0 cid = None" using assms(1) by auto
  from assms(2) obtain st nw where l:
    "gr_loop (sched s) cid timeout (clock s) (clock s + read_gap s) ?s0 = Exited st nw s'"
    "nw - st < timeout"
    unfolding get_response_waits [OF assms(1)]
    by (auto split: loop_result.splits if_splits)
  from loop_true_only_if [OF l] n show ?thesis by simp
qed

text \<open>
  C1 (as amended). With \<^verbatim>\<open>should_wait\<close> true: a call that finds a value for the id
  already stored returns at once, true when the timeout is greater than the time between
  its two clock readings and false otherwise. A call that starts without one returns true,
  with the entry removed, if an envelope carrying the id and a payload field is stored
  under the id during a sleep that the call reads as ended before the timeout; and it
  returns true only if a value that is truthy and not \<^verbatim>\<open>"nil"\<close> was stored under the id
  during the wait. When nothing is ever stored under the id, the call returns false after
  an elapsed time of at least the timeout and less than the timeout plus 0.25 plus the
  bound \<open>d\<close> on what a sleep or a clock reading takes beyond its time, and the registry
  holds what it held and what the other threads wrote: the call itself changes nothing.
\<close>

theorem get_response_wait:
  "(cid \<in> dom (responses s) \<longrightarrow>
      get_response cid timeout True s =
        (if read_gap s < timeout then Returned True (s\<lparr>clock := clock s + read_gap s\<rparr>)
         else Returned False
           (s\<lparr>clock := clock s + read_gap s, timeout_logs := timeout_logs s + 1\<rparr>)))
   \<and> (cid \<notin> dom (responses s) \<and> 0 \<le> read_gap s \<and> sched s = pre @ ev # rest
        \<and> (\<forall>e\<in>set pre. cid \<notin> fst ` set (arrivals e) \<and> 0 \<le> dt e) \<and> 0 \<le> dt ev
        \<and> map_of (rev (arrivals ev)) cid = Some (PDict kvs)
        \<and> receiver_entry cid (PDict kvs) \<and> map_of kvs ''payload'' = Some p
        \<and> read_gap s + sum_list (map (\<lambda>e. 1 / 4 + dt e) (pre @ [ev])) < timeout \<longrightarrow>
      (\<exists>s'. get_response cid timeout True s = Returned True s'
           \<and> cid \<notin> dom (responses s')))
   \<and> (cid \<notin> dom (responses s) \<and> get_response cid timeout True s = Returned True s' \<longrightarrow>
        (\<exists>ev\<in>set (sched s). \<exists>v. (cid, v) \<in> set (arrivals ev) \<and> qualifying v))
   \<and> (cid \<notin> dom (responses s) \<and> 0 \<le> timeout \<and> 0 \<le> read_gap s \<and> read_gap s \<le> d
        \<and> (\<forall>e\<in>set (sched s). cid \<notin> fst ` set (arrivals e) \<and> 0 \<le> dt e \<and> dt e \<le> d)
        \<and> timeout \<le> of_nat (length (sched s)) / 4 \<longrightarrow>
        (\<exists>n s''. n \<le> length (sched s)
           \<and> get_response cid timeout True s = Returned False s''
           \<and> responses s'' = deliver (concat (map arrivals (take n (sched s)))) (responses s)
           \<and> handled s'' = handled s
           \<and> timeout \<le> clock s'' - clock s \<and> clock s'' - clock s < timeout + 1 / 4 + d))"
proof (intro conjI impI)
  assume "cid \<in> dom (responses s)"
  then show "get_response cid timeout True s =
        (if read_gap s < timeout then Returned True (s\<lparr>clock := clock s + read_gap s\<rparr>)
         else Returned False
           (s\<lparr>clock := clock s + read_gap s, timeout_logs := timeout_logs s + 1\<rparr>))"
    by (simp add: get_response_skip)
next
  assume a: "cid \<notin> dom (responses s) \<and> 0 \<le> read_gap s \<and> sched s = pre @ ev # rest
        \<and> (\<forall>e\<in>set pre. cid \<notin> fst ` set (arrivals e) \<and> 0 \<le> dt e) \<and> 0 \<le> dt ev
        \<and> map_of (rev (arrivals ev)) cid = Some (PDict kvs)
        \<and> receiver_entry cid (PDict kvs) \<and> map_of kvs ''payload'' = Some p
        \<and> read_gap s + sum_list (map (\<lambda>e. 1 / 4 + dt e) (pre @ [ev])) < timeout"
  have "\<exists>s'. get_response cid timeout True s = Returned True s'
            \<and> responses s' cid = None
            \<and> handled s' = handled s @ (if truthy p then [(inner_call_id kvs, p)] else [])
            \<and> same_session s s' \<and> timeout_logs s' = timeout_logs s"
    by (rule get_response_finds [of cid s pre ev rest kvs p]) (use a in blast)+
  then show "\<exists>s'. get_response cid timeout True s = Returned True s'
           \<and> cid \<notin> dom (responses s')"
    by (auto simp: domIff)
next
  assume "cid \<notin> dom (responses s) \<and> get_response cid timeout True s = Returned True s'"
  then show "\<exists>ev\<in>set (sched s). \<exists>v. (cid, v) \<in> set (arrivals ev) \<and> qualifying v"
    using get_response_true_only_if by blast
next
  assume a: "cid \<notin> dom (responses s) \<and> 0 \<le> timeout \<and> 0 \<le> read_gap s \<and> read_gap s \<le> d
        \<and> (\<forall>e\<in>set (sched s). cid \<notin> fst ` set (arrivals e) \<and> 0 \<le> dt e \<and> dt e \<le> d)
        \<and> timeout \<le> of_nat (length (sched s)) / 4"
  show "\<exists>n s''. n \<le> length (sched s)
           \<and> get_response cid timeout True s = Returned False s''
           \<and> responses s'' = deliver (concat (map arrivals (take n (sched s)))) (responses s)
           \<and> handled s'' = handled s
           \<and> timeout \<le> clock s'' - clock s \<and> clock s'' - clock s < timeout + 1 / 4 + d"
    by (rule get_response_times_out) (use a in blast)+
qed

theorem get_response_iff_counterexample:
  "get_response (KInt 7) (1 / 2) True
       (init\<lparr>sched := [\<lparr>dt = 0, arrivals = []\<rparr>,
          \<lparr>dt = 0, arrivals = [(KInt 7, PDict [(''callId'', PInt 7), (''payload'', PNone)])]\<rparr>]\<rparr>)
     = Returned False
        (init\<lparr>clock := 1 / 2,
           responses := [KInt 7 \<mapsto> PDict [(''callId'', PInt 7), (''payload'', PNone)]],
           sched := [], timeout_logs := 1\<rparr>)
   \<and> get_response (KInt 7) 10 True
       (init\<lparr>sched := [\<lparr>dt = 0, arrivals = [(KInt 7, PDict [(''callId'', PInt 7)])]\<rparr>]\<rparr>)
     = Raised KeyError
        (init\<lparr>clock := 1 / 4, responses := [KInt 7 \<mapsto> PDict [(''callId'', PInt 7)]],
           sched := []\<rparr>)"
  by (simp add: get_response_def init_def gr_loop.simps consume_def)

theorem get_response_wait_witness:
  "get_response (KInt 7) 10 True
       (init\<lparr>responses := [KInt 7 \<mapsto> PDict [(''callId'', PInt 7), (''payload'', PNone)]]\<rparr>)
     = Returned True
        (init\<lparr>responses := [KInt 7 \<mapsto> PDict [(''callId'', PInt 7), (''payload'', PNone)]]\<rparr>)
   \<and> (\<exists>s'. get_response (KInt 7) 10 True
          (init\<lparr>sched := [\<lparr>dt = 0, arrivals =
             [(KInt 7, PDict [(''callId'', PInt 7), (''payload'', PNone)])]\<rparr>]\<rparr>)
          = Returned True s' \<and> KInt 7 \<notin> dom (responses s'))
   \<and> (\<exists>ev\<in>set [\<lparr>dt = 0, arrivals =
             [(KInt 7, PDict [(''callId'', PInt 7), (''payload'', PNone)])]\<rparr>].
        \<exists>v. (KInt 7, v) \<in> set (arrivals ev) \<and> qualifying v)
   \<and> (\<exists>n s''. n \<le> (3::nat)
        \<and> get_response (KInt 7) (1 / 2) True
          (init\<lparr>sched := [\<lparr>dt = 0, arrivals = []\<rparr>, \<lparr>dt = 0, arrivals = []\<rparr>,
                             \<lparr>dt = 0, arrivals = []\<rparr>]\<rparr>)
          = Returned False s''
        \<and> handled s'' = [] \<and> 1 / 2 \<le> clock s'' \<and> clock s'' < 3 / 4)"
proof -
  let ?v = "PDict [(''callId'', PInt 7), (''payload'', PNone)]"
  let ?e = "\<lparr>dt = 0, arrivals = [(KInt 7, ?v)]\<rparr>"
  let ?q = "\<lparr>dt = 0 :: rat, arrivals = [] :: (key \<times> pyval) list\<rparr>"
  let ?p = "init\<lparr>responses := [KInt 7 \<mapsto> ?v]\<rparr>"
  let ?s = "init\<lparr>sched := [?e]\<rparr>"
  let ?t = "init\<lparr>sched := [?q, ?q, ?q]\<rparr>"
  have a: "get_response (KInt 7) 10 True ?p = Returned True ?p"
    using get_response_wait [where cid = "KInt 7" and s = ?p and timeout = 10]
    by (simp add: init_def)
  have h: "KInt 7 \<notin> dom (responses ?s) \<and> 0 \<le> read_gap ?s \<and> sched ?s = [] @ ?e # []
        \<and> (\<forall>e\<in>set []. KInt 7 \<notin> fst ` set (arrivals e) \<and> 0 \<le> dt e) \<and> 0 \<le> dt ?e
        \<and> map_of (rev (arrivals ?e)) (KInt 7) = Some ?v
        \<and> receiver_entry (KInt 7) ?v
        \<and> map_of [(''callId'', PInt 7), (''payload'', PNone)] ''payload'' = Some PNone
        \<and> read_gap ?s + sum_list (map (\<lambda>e. 1 / 4 + dt e) ([] @ [?e])) < 10"
    by (simp add: init_def receiver_entry_def inner_call_id_def)
  have b: "\<exists>s'. get_response (KInt 7) 10 True ?s = Returned True s'
        \<and> KInt 7 \<notin> dom (responses s')"
    by (rule get_response_wait [where cid = "KInt 7" and s = ?s and timeout = 10
          and pre = "[]" and ev = ?e and rest = "[]" and p = PNone
          and kvs = "[(''callId'', PInt 7), (''payload'', PNone)]",
          THEN conjunct2, THEN conjunct1, rule_format, OF h])
  then obtain s' where s': "get_response (KInt 7) 10 True ?s = Returned True s'" by blast
  have n: "KInt 7 \<notin> dom (responses ?s)" by (simp add: init_def)
  have c: "\<exists>ev\<in>set (sched ?s). \<exists>v. (KInt 7, v) \<in> set (arrivals ev) \<and> qualifying v"
    by (rule get_response_wait [where cid = "KInt 7" and s = ?s and timeout = 10 and s' = s',
          THEN conjunct2, THEN conjunct2, THEN conjunct1, rule_format, OF conjI [OF n s']])
  have k: "KInt 7 \<notin> dom (responses ?t) \<and> (0::rat) \<le> 1 / 2 \<and> 0 \<le> read_gap ?t
        \<and> read_gap ?t \<le> 0
        \<and> (\<forall>e\<in>set (sched ?t). KInt 7 \<notin> fst ` set (arrivals e) \<and> 0 \<le> dt e \<and> dt e \<le> 0)
        \<and> 1 / 2 \<le> of_nat (length (sched ?t)) / (4::rat)"
    by (simp add: init_def)
  have d: "\<exists>n s''. n \<le> length (sched ?t)
           \<and> get_response (KInt 7) (1 / 2) True ?t = Returned False s''
           \<and> responses s'' = deliver (concat (map arrivals (take n (sched ?t)))) (responses ?t)
           \<and> handled s'' = handled ?t
           \<and> 1 / 2 \<le> clock s'' - clock ?t \<and> clock s'' - clock ?t < 1 / 2 + 1 / 4 + 0"
    by (rule get_response_wait [where cid = "KInt 7" and s = ?t and timeout = "1 / 2"
          and d = 0, THEN conjunct2, THEN conjunct2, THEN conjunct2, rule_format, OF k])
  have f: "sched ?s = [?e]" "length (sched ?t) = 3" "handled ?t = []" "clock ?t = 0"
    by (simp_all add: init_def)
  from d obtain n :: nat and s'' where d': "n \<le> 3"
    "get_response (KInt 7) (1 / 2) True ?t = Returned False s''"
    "handled s'' = []" "1 / 2 \<le> clock s''" "clock s'' < 3 / 4"
    unfolding f by auto
  show ?thesis
    using a b c d' unfolding f by (intro conjI) blast+
qed

lemma py_get_call_id: "py_get (PDict kvs) ''callId'' = Inr (inner_call_id kvs)"
  by (simp add: inner_call_id_def split: option.splits)

lemma dispatch_dict:
  "dispatch (PDict kvs) s =
     (if inner_call_id kvs \<noteq> PNone then
        (case as_key (inner_call_id kvs) of
           None \<Rightarrow> Inl (TypeError, s)
         | Some k \<Rightarrow> Inr (s\<lparr>responses := (responses s)(k \<mapsto> PDict kvs)\<rparr>))
      else
        (case map_of kvs ''payload'' of
           None \<Rightarrow> Inl (KeyError, s)
         | Some p \<Rightarrow> Inr (if truthy p then handle_incoming_response PNone p s else s)))"
  unfolding dispatch_def py_get_call_id by (simp split: option.splits)

lemma dispatch_writes:
  assumes "dispatch json s = Inr s'"
  shows "responses s' = responses s
       \<or> (\<exists>k. receiver_entry k json \<and> responses s' = (responses s)(k \<mapsto> json))"
proof (cases json)
  case (PDict kvs)
  then show ?thesis
    using assms
    by (auto simp: dispatch_dict receiver_entry_def handle_incoming_response_def
        split: if_splits option.splits)
qed (use assms in \<open>simp_all add: dispatch_def\<close>)

text \<open>
  C4 (as amended). Round trip: what the receiver loop stores is an envelope under its own
  \<^verbatim>\<open>callId\<close>. When such an envelope, with a payload field, is stored under the awaited
  id while \<^verbatim>\<open>get_response\<close> waits (the id had no entry when the call was entered) and
  the sleep in which it arrives ends before the timeout, the call returns true, the payload
  has been forwarded to the handler if it is truthy, and the registry has no entry for the
  id afterwards. An envelope that is already stored when the call is entered is not
  consumed: the call returns true at once (for a timeout greater than the time between its
  two clock readings), nothing is forwarded and the entry stays.
\<close>

theorem round_trip_during_wait:
  "(cid \<notin> dom (responses s) \<and> 0 \<le> read_gap s \<and> sched s = pre @ ev # rest
      \<and> (\<forall>e\<in>set pre. cid \<notin> fst ` set (arrivals e) \<and> 0 \<le> dt e) \<and> 0 \<le> dt ev
      \<and> map_of (rev (arrivals ev)) cid = Some (PDict kvs)
      \<and> receiver_entry cid (PDict kvs) \<and> map_of kvs ''payload'' = Some p
      \<and> read_gap s + sum_list (map (\<lambda>e. 1 / 4 + dt e) (pre @ [ev])) < timeout \<longrightarrow>
      (\<exists>s'. get_response cid timeout True s = Returned True s'
           \<and> cid \<notin> dom (responses s')
           \<and> handled s' = handled s @ (if truthy p then [(inner_call_id kvs, p)] else [])))
   \<and> (responses s cid = Some v \<and> read_gap s < timeout \<longrightarrow>
        get_response cid timeout should_wait s
          = Returned True (s\<lparr>clock := clock s + read_gap s\<rparr>))
   \<and> (dispatch json s = Inr s1 \<longrightarrow>
        responses s1 = responses s
        \<or> (\<exists>k. receiver_entry k json \<and> responses s1 = (responses s)(k \<mapsto> json)))"
proof (intro conjI impI)
  assume a: "cid \<notin> dom (responses s) \<and> 0 \<le> read_gap s \<and> sched s = pre @ ev # rest
      \<and> (\<forall>e\<in>set pre. cid \<notin> fst ` set (arrivals e) \<and> 0 \<le> dt e) \<and> 0 \<le> dt ev
      \<and> map_of (rev (arrivals ev)) cid = Some (PDict kvs)
      \<and> receiver_entry cid (PDict kvs) \<and> map_of kvs ''payload'' = Some p
      \<and> read_gap s + sum_list (map (\<lambda>e. 1 / 4 + dt e) (pre @ [ev])) < timeout"
  have "\<exists>s'. get_response cid timeout True s = Returned True s'
            \<and> responses s' cid = None
            \<and> handled s' = handled s @ (if truthy p then [(inner_call_id kvs, p)] else [])
            \<and> same_session s s' \<and> timeout_logs s' = timeout_logs s"
    by (rule get_response_finds [of cid s pre ev rest kvs p]) (use a in blast)+
  then show "\<exists>s'. get_response cid timeout True s = Returned True s'
           \<and> cid \<notin> dom (responses s')
           \<and> handled s' = handled s @ (if truthy p then [(inner_call_id kvs, p)] else [])"
    by (auto simp: domIff)
next
  assume "responses s cid = Some v \<and> read_gap s < timeout"
  then show "get_response cid timeout should_wait s
          = Returned True (s\<lparr>clock := clock s + read_gap s\<rparr>)"
    by (simp add: get_response_skip domI)
next
  assume "dispatch json s = Inr s1"
  then show "responses s1 = responses s
        \<or> (\<exists>k. receiver_entry k json \<and> responses s1 = (responses s)(k \<mapsto> json))"
    by (rule dispatch_writes)
qed

theorem round_trip_counterexample:
  "dispatch (PDict [(''callId'', PInt 1), (''payload'', PDict [(''ok'', PBool True)])]) init
     = Inr (init\<lparr>responses :=
         [KInt 1 \<mapsto> PDict [(''callId'', PInt 1), (''payload'', PDict [(''ok'', PBool True)])]]\<rparr>)
   \<and> get_response (KInt 1) 5 True
       (init\<lparr>responses :=
         [KInt 1 \<mapsto> PDict [(''callId'', PInt 1), (''payload'', PDict [(''ok'', PBool True)])]]\<rparr>)
     = Returned True
       (init\<lparr>responses :=
         [KInt 1 \<mapsto> PDict [(''callId'', PInt 1), (''payload'', PDict [(''ok'', PBool True)])]]\<rparr>)
   \<and> get_response (KInt 2) 5 True
       (init\<lparr>sched := [\<lparr>dt = 0, arrivals = [(KInt 2, PDict [(''callId'', PInt 2)])]\<rparr>]\<rparr>)
     = Raised KeyError
        (init\<lparr>clock := 1 / 4, responses := [KInt 2 \<mapsto> PDict [(''callId'', PInt 2)]],
           sched := []\<rparr>)"
  by (simp add: get_response_def init_def gr_loop.simps consume_def dispatch_def)

theorem round_trip_during_wait_witness:
  "(\<exists>s'. get_response (KInt 1) 5 True
        (init\<lparr>sched := [\<lparr>dt = 0, arrivals =
           [(KInt 1, PDict [(''callId'', PInt 1), (''payload'', PDict [(''ok'', PBool True)])])]\<rparr>]\<rparr>)
      = Returned True s'
      \<and> KInt 1 \<notin> dom (responses s')
      \<and> handled s' = [(PInt 1, PDict [(''ok'', PBool True)])])
   \<and> get_response (KInt 1) 5 True
       (init\<lparr>responses :=
         [KInt 1 \<mapsto> PDict [(''callId'', PInt 1), (''payload'', PDict [(''ok'', PBool True)])]]\<rparr>)
     = Returned True
       (init\<lparr>responses :=
         [KInt 1 \<mapsto> PDict [(''callId'', PInt 1), (''payload'', PDict [(''ok'', PBool True)])]]\<rparr>)
   \<and> receiver_entry (KInt 1)
        (PDict [(''callId'', PInt 1), (''payload'', PDict [(''ok'', PBool True)])])"
proof -
  let ?kvs = "[(''callId'', PInt 1), (''payload'', PDict [(''ok'', PBool True)])]"
  let ?v = "PDict ?kvs"
  let ?e = "\<lparr>dt = 0, arrivals = [(KInt 1, ?v)]\<rparr>"
  let ?s = "init\<lparr>sched := [?e]\<rparr>"
  let ?p = "init\<lparr>responses := [KInt 1 \<mapsto> ?v]\<rparr>"
  have re: "receiver_entry (KInt 1) ?v" by (simp add: receiver_entry_def inner_call_id_def)
  have h: "KInt 1 \<notin> dom (responses ?s) \<and> 0 \<le> read_gap ?s \<and> sched ?s = [] @ ?e # []
        \<and> (\<forall>e\<in>set []. KInt 1 \<notin> fst ` set (arrivals e) \<and> 0 \<le> dt e) \<and> 0 \<le> dt ?e
        \<and> map_of (rev (arrivals ?e)) (KInt 1) = Some ?v
        \<and> receiver_entry (KInt 1) ?v
        \<and> map_of ?kvs ''payload'' = Some (PDict [(''ok'', PBool True)])
        \<and> read_gap ?s + sum_list (map (\<lambda>e. 1 / 4 + dt e) ([] @ [?e])) < 5"
    using re by (simp add: init_def)
  have a: "\<exists>s'. get_response (KInt 1) 5 True ?s = Returned True s'
           \<and> KInt 1 \<notin> dom (responses s')
           \<and> handled s' = handled ?s
                @ (if truthy (PDict [(''ok'', PBool True)])
                   then [(inner_call_id ?kvs, PDict [(''ok'', PBool True)])] else [])"
    by (rule round_trip_during_wait [where cid = "KInt 1" and s = ?s and timeout = 5
          and pre = "[]" and ev = ?e and rest = "[]" and kvs = ?kvs
          and p = "PDict [(''ok'', PBool True)]",
          THEN conjunct1, rule_format, OF h])
  have f: "handled ?s = []" "inner_call_id ?kvs = PInt 1" "truthy (PDict [(''ok'', PBool True)])"
    by (simp_all add: init_def inner_call_id_def)
  have g: "responses ?p (KInt 1) = Some ?v \<and> read_gap ?p < 5" by (simp add: init_def)
  have b: "get_response (KInt 1) 5 True ?p = Returned True (?p\<lparr>clock := clock ?p + read_gap ?p\<rparr>)"
    by (rule round_trip_during_wait [where cid = "KInt 1" and s = ?p and timeout = 5
          and v = ?v and should_wait = True,
          THEN conjunct2, THEN conjunct1, rule_format, OF g])
  have c: "?p\<lparr>clock := clock ?p + read_gap ?p\<rparr> = ?p" by (simp add: init_def)
  show ?thesis using a b re unfolding f c by simp
qed

section \<open>Properties of send, connect_ensime_server and send_request\<close>

lemma connect_guard_fails:
  "\<not> (running s \<and> number_try_connection s \<noteq> 0) \<Longrightarrow>
   connect_ensime_server s = Returned False (disable_completely s)"
  by (subst connect_ensime_server.simps) auto

lemma send_no_transport: "\<not> ws s \<Longrightarrow> send msg s = Returned () s"
  by (subst send.simps) simp

lemma send_request_no_transport:
  "\<not> ws s \<Longrightarrow> send_request r s = Returned (call_id s) (s\<lparr>call_id := call_id s + 1\<rparr>)"
  by (subst send_request.simps) (simp add: send_no_transport)

lemma send_first_ok: "ws s \<Longrightarrow> ws_send msg s = Inr s1 \<Longrightarrow> send msg s = Returned () s1"
  by (subst send.simps) simp

lemma same_wait_refl [simp]: "same_wait s s"
  by (simp add: same_wait_def)

lemma same_wait_trans: "same_wait s s1 \<Longrightarrow> same_wait s1 s2 \<Longrightarrow> same_wait s s2"
  by (simp add: same_wait_def)

lemma same_wait_upd [simp]:
  "same_wait s1 (s2\<lparr>call_id := c\<rparr>) = same_wait s1 s2"
  "same_wait s1 (s2\<lparr>send_error_logs := n\<rparr>) = same_wait s1 s2"
  "same_wait s1 (s2\<lparr>number_try_connection := b\<rparr>) = same_wait s1 s2"
  "same_wait s1 (s2\<lparr>ensime_server := u\<rparr>) = same_wait s1 s2"
  "same_wait s1 (s2\<lparr>send_plan := p\<rparr>) = same_wait s1 s2"
  "same_wait s1 (s2\<lparr>conn_plan := q\<rparr>) = same_wait s1 s2"
  "same_wait s1 (s2\<lparr>sent := m\<rparr>) = same_wait s1 s2"
  "same_wait s1 (s2\<lparr>connects := k\<rparr>) = same_wait s1 s2"
  "same_wait s1 (s2\<lparr>ws := w\<rparr>) = same_wait s1 s2"
  by (simp_all add: same_wait_def)

lemma disable_completely_fields [simp]:
  "warnings (disable_completely s) = warnings s + 1"
  "connects (disable_completely s) = connects s"
  "ws (disable_completely s) = ws s"
  "number_try_connection (disable_completely s) = number_try_connection s"
  "running (disable_completely s) = running s"
  "connected (disable_completely s) = False"
  "sent (disable_completely s) = sent s"
  "clock (disable_completely s) = clock s"
  "call_id (disable_completely s) = call_id s"
  "send_plan (disable_completely s) = send_plan s"
  "conn_plan (disable_completely s) = conn_plan s"
  "responses (disable_completely s) = responses s"
  "sched (disable_completely s) = sched s"
  "read_gap (disable_completely s) = read_gap s"
  "handled (disable_completely s) = handled s"
  "send_error_logs (disable_completely s) = send_error_logs s"
  "timeout_logs (disable_completely s) = timeout_logs s"
  by (simp_all add: disable_completely_def display_ws_warning_def shutdown_server_def Let_def)

lemma disable_completely_wait [simp]: "same_wait s (disable_completely s)"
  by (simp add: same_wait_def)

lemma ws_send_cases:
  "ws_send msg s = Inl s1 \<Longrightarrow> \<exists>plan. send_plan s = True # plan \<and> s1 = s\<lparr>send_plan := plan\<rparr>"
  "ws_send msg s = Inr s1 \<Longrightarrow>
     (send_plan s = [] \<and> s1 = s\<lparr>sent := sent s @ [msg]\<rparr>)
     \<or> (\<exists>plan. send_plan s = False # plan \<and> s1 = s\<lparr>send_plan := plan, sent := sent s @ [msg]\<rparr>)"
  unfolding ws_send_def by (cases "send_plan s"; simp split: if_splits; blast)+

lemma ws_send_Inl_fields:
  assumes "ws_send msg s = Inl s1"
  shows "sent s1 = sent s" "warnings s1 = warnings s" "connects s1 = connects s"
    "number_try_connection s1 = number_try_connection s" "running s1 = running s"
    "call_id s1 = call_id s" "ws s1 = ws s" "same_wait s s1"
    "send_error_logs s1 = send_error_logs s"
proof -
  obtain plan where "s1 = s\<lparr>send_plan := plan\<rparr>" using ws_send_cases(1) [OF assms] by blast
  then show "sent s1 = sent s" "warnings s1 = warnings s" "connects s1 = connects s"
    "number_try_connection s1 = number_try_connection s" "running s1 = running s"
    "call_id s1 = call_id s" "ws s1 = ws s" "same_wait s s1"
    "send_error_logs s1 = send_error_logs s" by simp_all
qed

lemma ws_send_Inr_fields:
  assumes "ws_send msg s = Inr s1"
  shows "sent s1 = sent s @ [msg]" "warnings s1 = warnings s" "connects s1 = connects s"
    "number_try_connection s1 = number_try_connection s" "running s1 = running s"
    "call_id s1 = call_id s" "ws s1 = ws s" "same_wait s s1"
    "send_error_logs s1 = send_error_logs s"
proof -
  from ws_send_cases(2) [OF assms]
  obtain plan where "s1 = s\<lparr>sent := sent s @ [msg]\<rparr> \<or> s1 = s\<lparr>send_plan := plan, sent := sent s @ [msg]\<rparr>"
    by blast
  then show "sent s1 = sent s @ [msg]" "warnings s1 = warnings s" "connects s1 = connects s"
    "number_try_connection s1 = number_try_connection s" "running s1 = running s"
    "call_id s1 = call_id s" "ws s1 = ws s" "same_wait s s1"
    "send_error_logs s1 = send_error_logs s" by auto
qed

lemma server_uri_fields:
  assumes "server_uri s = Inr s1"
  shows "ws s1 = ws s" "number_try_connection s1 = number_try_connection s"
    "connects s1 = connects s" "sent s1 = sent s" "warnings s1 = warnings s"
    "call_id s1 = call_id s" "conn_plan s1 = conn_plan s" "same_wait s s1"
    "running s1 = running s"
proof -
  have "s1 = s \<or> (\<exists>u. s1 = s\<lparr>ensime_server := u\<rparr>)"
    using assms by (auto simp: server_uri_def split: if_splits option.splits)
  then show "ws s1 = ws s" "number_try_connection s1 = number_try_connection s"
    "connects s1 = connects s" "sent s1 = sent s" "warnings s1 = warnings s"
    "call_id s1 = call_id s" "conn_plan s1 = conn_plan s" "same_wait s s1"
    "running s1 = running s" by auto
qed

lemma create_connection_cases:
  "(\<exists>plan. create_connection s
        = Inl (s\<lparr>connects := connects s + 1, conn_plan := plan\<rparr>) \<and> conn_plan s = True # plan)
   \<or> create_connection s = Inr (s\<lparr>connects := connects s + 1, ws := True\<rparr>)
   \<or> (\<exists>plan. create_connection s
        = Inr (s\<lparr>connects := connects s + 1, conn_plan := plan, ws := True\<rparr>))"
  by (cases "conn_plan s") (auto simp: create_connection_def Let_def)

lemma open_transport_fields:
  "number_try_connection (open_transport s) = number_try_connection s - 1"
  "connects (open_transport s) = connects s + 1"
  "call_id (open_transport s) = call_id s"
  "sent (open_transport s) = sent s"
  "same_wait s (open_transport s)"
  "running (open_transport s) = running s"
  "ws s \<Longrightarrow> ws (open_transport s)"
  using create_connection_cases [of s]
  by (auto simp: open_transport_def Let_def same_wait_def)

lemma send_spent:
  assumes "number_try_connection s = 0"
  shows "\<exists>s'. send msg s = Returned () s' \<and> call_id s' = call_id s
            \<and> number_try_connection s' = 0 \<and> ws s' = ws s \<and> connects s' = connects s
            \<and> running s' = running s \<and> same_wait s s'
            \<and> (sent s' = sent s \<or> sent s' = sent s @ [msg])"
proof (cases "ws s")
  case False
  then show ?thesis using assms by (simp add: send_no_transport)
next
  case True
  show ?thesis
  proof (cases "ws_send msg s")
    case (Inr s1)
    then show ?thesis
      using True assms ws_send_Inr_fields [OF Inr] by (simp add: send_first_ok)
  next
    case (Inl s1)
    note f1 = ws_send_Inl_fields [OF Inl]
    let ?s1 = "s1\<lparr>send_error_logs := send_error_logs s1 + 1\<rparr>"
    let ?d = "disable_completely ?s1"
    have c: "connect_ensime_server ?s1 = Returned False ?d"
      using f1 assms by (simp add: connect_guard_fails)
    have wd: "ws ?d" using f1 True by simp
    have sw: "same_wait s ?d"
      using f1(8) by (simp add: same_wait_def)
    show ?thesis
    proof (cases "ws_send msg ?d")
      case r: (Inr s3)
      have "send msg s = Returned () s3"
        using True Inl c wd r by (subst send.simps) simp
      moreover have "same_wait s s3"
        using same_wait_trans [OF sw ws_send_Inr_fields(8) [OF r]] .
      ultimately show ?thesis
        using ws_send_Inr_fields [OF r] f1 assms True by simp
    next
      case l: (Inl s3)
      have "send msg s = Returned () (s3\<lparr>send_error_logs := send_error_logs s3 + 1\<rparr>)"
        using True Inl c wd l by (subst send.simps) simp
      moreover have "same_wait s s3"
        using same_wait_trans [OF sw ws_send_Inl_fields(8) [OF l]] .
      ultimately show ?thesis
        using ws_send_Inl_fields [OF l] f1 assms True by simp
    qed
  qed
qed

lemma send_request_spent:
  assumes "number_try_connection s = 0"
  shows "\<exists>s'. send_request r s = Returned (call_id s) s' \<and> call_id s' = call_id s + 1
            \<and> number_try_connection s' = 0 \<and> ws s' = ws s \<and> connects s' = connects s
            \<and> running s' = running s \<and> same_wait s s'
            \<and> (sent s' = sent s \<or> sent s' = sent s @ [request_message (call_id s) r])"
proof -
  let ?m = "PDict [(''callId'', PInt (call_id s)), (''req'', r)]"
  obtain s1 where s1: "send ?m s = Returned () s1" "call_id s1 = call_id s"
    "number_try_connection s1 = 0" "ws s1 = ws s" "connects s1 = connects s"
    "running s1 = running s" "same_wait s s1"
    "sent s1 = sent s \<or> sent s1 = sent s @ [?m]"
    using send_spent [OF assms, of ?m] by blast
  have "send_request r s = Returned (call_id s) (s1\<lparr>call_id := call_id s + 1\<rparr>)"
    using s1(1,2) by (subst send_request.simps) simp
  then show ?thesis
    using s1 by (intro exI [of _ "s1\<lparr>call_id := call_id s + 1\<rparr>"])
      (simp add: request_message_def)
qed

lemma session_inv_init: "session_inv init"
  by (simp add: session_inv_def init_def)

lemma send_request_step:
  assumes "session_inv s"
  shows "\<exists>s'. send_request r s = Returned (call_id s) s' \<and> call_id s' = call_id s + 1
            \<and> session_inv s' \<and> same_wait s s'
            \<and> (sent s' = sent s \<or> sent s' = sent s @ [request_message (call_id s) r])"
proof (cases "number_try_connection s = 0")
  case True
  from send_request_spent [OF True, of r] show ?thesis
    by (auto simp: session_inv_def)
next
  case False
  then have "\<not> ws s" "number_try_connection s = 1" using assms by (auto simp: session_inv_def)
  then show ?thesis
    by (simp add: send_request_no_transport session_inv_def)
qed

text \<open>The handshake of a session that has its attempt left and no transport yet.\<close>

lemma connect_session:
  assumes "running s" and "number_try_connection s = 1" and "server_uri s = Inr s1"
  shows "\<exists>s3. connect_ensime_server s = get_response (KInt (call_id s)) 30 True s3
            \<and> same_wait s s3 \<and> number_try_connection s3 = 0
            \<and> connects s3 = connects s + 1 \<and> call_id s3 = call_id s + 1"
proof -
  note u = server_uri_fields [OF assms(3)]
  let ?s2 = "open_transport s1"
  have b: "number_try_connection ?s2 = 0" using u assms(2) by (simp add: open_transport_fields)
  have w2: "same_wait s ?s2"
    using same_wait_trans [OF u(8) open_transport_fields(5)] .
  obtain s3 where s3: "send_request connection_info_request ?s2 = Returned (call_id ?s2) s3"
    "call_id s3 = call_id ?s2 + 1" "number_try_connection s3 = 0"
    "connects s3 = connects ?s2" "same_wait ?s2 s3"
    using send_request_spent [OF b, of connection_info_request] by blast
  have c: "connect_ensime_server s = get_response (KInt (call_id ?s2)) 30 True s3"
    using assms s3(1) by (subst connect_ensime_server.simps) simp
  show ?thesis
    using c s3 u same_wait_trans [OF w2 s3(5)]
    by (intro exI [of _ s3]) (simp add: open_transport_fields)
qed

text \<open>
  C8 (as amended). \<^verbatim>\<open>connect_ensime_server\<close> goes on when \<^verbatim>\<open>running\<close> is true and
  the attempt budget is not zero; otherwise it returns false at once, after the disable
  path, without opening a transport, sending anything or waiting. Past the guard it
  attempts the transport connection, decrements the budget, issues the connection-info
  request through \<^verbatim>\<open>send_request\<close> and returns what \<^verbatim>\<open>get_response\<close> gives for the id
  of that request with the timeout 30. For a session with its one attempt left: it returns
  true when an envelope with that id and a payload is stored during a sleep that ends
  before 30 time units, and false, after at least 30 time units, when nothing is stored
  under the id.
\<close>

theorem connect_ensime_server_contract:
  "(\<not> (running s \<and> number_try_connection s \<noteq> 0) \<longrightarrow>
      connect_ensime_server s = Returned False (disable_completely s)
      \<and> connects (disable_completely s) = connects s
      \<and> ws (disable_completely s) = ws s
      \<and> sent (disable_completely s) = sent s
      \<and> clock (disable_completely s) = clock s)
   \<and> (running s \<and> number_try_connection s \<noteq> 0 \<and> server_uri s = Inr s1 \<longrightarrow>
        number_try_connection (open_transport s1) = number_try_connection s - 1
        \<and> connects (open_transport s1) = connects s + 1
        \<and> connect_ensime_server s =
            (case send_request connection_info_request (open_transport s1) of
               Returned cid s2 \<Rightarrow> get_response (KInt cid) 30 True s2
             | Raised e s2 \<Rightarrow> Raised e s2
             | Pending s2 \<Rightarrow> Pending s2))
   \<and> (running s \<and> number_try_connection s = 1 \<and> server_uri s = Inr s1
        \<and> KInt (call_id s) \<notin> dom (responses s) \<and> 0 \<le> read_gap s
        \<and> sched s = pre @ ev # rest
        \<and> (\<forall>e\<in>set pre. KInt (call_id s) \<notin> fst ` set (arrivals e) \<and> 0 \<le> dt e)
        \<and> 0 \<le> dt ev
        \<and> map_of (rev (arrivals ev)) (KInt (call_id s)) = Some (PDict kvs)
        \<and> receiver_entry (KInt (call_id s)) (PDict kvs) \<and> map_of kvs ''payload'' = Some p
        \<and> read_gap s + sum_list (map (\<lambda>e. 1 / 4 + dt e) (pre @ [ev])) < 30 \<longrightarrow>
        (\<exists>s'. connect_ensime_server s = Returned True s'
             \<and> number_try_connection s' = 0 \<and> connects s' = connects s + 1))
   \<and> (running s \<and> number_try_connection s = 1 \<and> server_uri s = Inr s1
        \<and> KInt (call_id s) \<notin> dom (responses s) \<and> 0 \<le> read_gap s \<and> read_gap s \<le> d
        \<and> (\<forall>e\<in>set (sched s).
              KInt (call_id s) \<notin> fst ` set (arrivals e) \<and> 0 \<le> dt e \<and> dt e \<le> d)
        \<and> 120 \<le> length (sched s) \<longrightarrow>
        (\<exists>s'. connect_ensime_server s = Returned False s'
             \<and> number_try_connection s' = 0
             \<and> 30 \<le> clock s' - clock s \<and> clock s' - clock s < 30 + 1 / 4 + d))"
proof (intro conjI impI)
  assume "\<not> (running s \<and> number_try_connection s \<noteq> 0)"
  then show "connect_ensime_server s = Returned False (disable_completely s)"
    by (rule connect_guard_fails)
next
  assume a: "running s \<and> number_try_connection s \<noteq> 0 \<and> server_uri s = Inr s1"
  note u = server_uri_fields [of s s1]
  show "number_try_connection (open_transport s1) = number_try_connection s - 1"
    using a u by (simp add: open_transport_fields)
  show "connects (open_transport s1) = connects s + 1"
    using a u by (simp add: open_transport_fields)
  show "connect_ensime_server s =
            (case send_request connection_info_request (open_transport s1) of
               Returned cid s2 \<Rightarrow> get_response (KInt cid) 30 True s2
             | Raised e s2 \<Rightarrow> Raised e s2
             | Pending s2 \<Rightarrow> Pending s2)"
    using a by (subst connect_ensime_server.simps) simp
next
  assume a: "running s \<and> number_try_connection s = 1 \<and> server_uri s = Inr s1
        \<and> KInt (call_id s) \<notin> dom (responses s) \<and> 0 \<le> read_gap s
        \<and> sched s = pre @ ev # rest
        \<and> (\<forall>e\<in>set pre. KInt (call_id s) \<notin> fst ` set (arrivals e) \<and> 0 \<le> dt e)
        \<and> 0 \<le> dt ev
        \<and> map_of (rev (arrivals ev)) (KInt (call_id s)) = Some (PDict kvs)
        \<and> receiver_entry (KInt (call_id s)) (PDict kvs) \<and> map_of kvs ''payload'' = Some p
        \<and> read_gap s + sum_list (map (\<lambda>e. 1 / 4 + dt e) (pre @ [ev])) < 30"
  obtain s3 where s3: "connect_ensime_server s = get_response (KInt (call_id s)) 30 True s3"
    "same_wait s s3" "number_try_connection s3 = 0" "connects s3 = connects s + 1"
    using connect_session [of s s1] a by blast
  have w: "responses s3 = responses s" "sched s3 = sched s" "read_gap s3 = read_gap s"
    using s3(2) by (simp_all add: same_wait_def)
  have "\<exists>s'. get_response (KInt (call_id s)) 30 True s3 = Returned True s'
            \<and> responses s' (KInt (call_id s)) = None
            \<and> handled s' = handled s3 @ (if truthy p then [(inner_call_id kvs, p)] else [])
            \<and> same_session s3 s' \<and> timeout_logs s' = timeout_logs s3"
    by (rule get_response_finds [of "KInt (call_id s)" s3 pre ev rest kvs p])
      (use a w in auto)
  then obtain s' where s': "get_response (KInt (call_id s)) 30 True s3 = Returned True s'"
    "same_session s3 s'" by blast
  show "\<exists>s'. connect_ensime_server s = Returned True s'
             \<and> number_try_connection s' = 0 \<and> connects s' = connects s + 1"
    using s3 s' by (intro exI [of _ s']) (simp add: same_session_def)
next
  assume a: "running s \<and> number_try_connection s = 1 \<and> server_uri s = Inr s1
        \<and> KInt (call_id s) \<notin> dom (responses s) \<and> 0 \<le> read_gap s \<and> read_gap s \<le> d
        \<and> (\<forall>e\<in>set (sched s).
              KInt (call_id s) \<notin> fst ` set (arrivals e) \<and> 0 \<le> dt e \<and> dt e \<le> d)
        \<and> 120 \<le> length (sched s)"
  obtain s3 where s3: "connect_ensime_server s = get_response (KInt (call_id s)) 30 True s3"
    "same_wait s s3" "number_try_connection s3 = 0" "connects s3 = connects s + 1"
    using connect_session [of s s1] a by blast
  have w: "responses s3 = responses s" "sched s3 = sched s" "read_gap s3 = read_gap s"
    "clock s3 = clock s"
    using s3(2) by (simp_all add: same_wait_def)
  have "(120::rat) \<le> of_nat (length (sched s))"
    using a of_nat_mono [of 120 "length (sched s)", where 'a = rat] by simp
  then have len: "(30::rat) \<le> of_nat (length (sched s3)) / 4" using w by simp
  have "\<exists>n s''. n \<le> length (sched s3)
           \<and> get_response (KInt (call_id s)) 30 True s3 = Returned False s''
           \<and> responses s'' = deliver (concat (map arrivals (take n (sched s3)))) (responses s3)
           \<and> handled s'' = handled s3
           \<and> 30 \<le> clock s'' - clock s3 \<and> clock s'' - clock s3 < 30 + 1 / 4 + d"
    by (rule get_response_times_out [OF _ _ _ _ _ len]) (use a w in auto)
  then obtain s'' where s'': "get_response (KInt (call_id s)) 30 True s3 = Returned False s''"
    "30 \<le> clock s'' - clock s3" "clock s'' - clock s3 < 30 + 1 / 4 + d" by blast
  have "same_session s3 s''"
    using get_response_frame [of s3 "KInt (call_id s)" 30 True] unfolding s''(1) by simp
  then show "\<exists>s'. connect_ensime_server s = Returned False s'
             \<and> number_try_connection s' = 0
             \<and> 30 \<le> clock s' - clock s \<and> clock s' - clock s < 30 + 1 / 4 + d"
    using s3 s'' w by (intro exI [of _ s'']) (simp add: same_session_def)
qed simp_all

theorem connect_ensime_server_counterexample:
  "connect_ensime_server
     (init\<lparr>ensime := Some 8080,
           responses := [KInt 1 \<mapsto> PDict [(''callId'', PInt 1), (''payload'', PNone)]]\<rparr>)
     = Returned True
        (init\<lparr>ensime := Some 8080,
           responses := [KInt 1 \<mapsto> PDict [(''callId'', PInt 1), (''payload'', PNone)]],
           ensime_server := Some 8080, connects := 1, ws := True, number_try_connection := 0,
           sent := [PDict [(''callId'', PInt 1), (''req'', connection_info_request)]],
           call_id := 2\<rparr>)
   \<and> connect_ensime_server
     (init\<lparr>ensime := Some 8080, number_try_connection := - 1,
           responses := [KInt 1 \<mapsto> PDict [(''callId'', PInt 1), (''payload'', PNone)]]\<rparr>)
     = Returned True
        (init\<lparr>ensime := Some 8080,
           responses := [KInt 1 \<mapsto> PDict [(''callId'', PInt 1), (''payload'', PNone)]],
           ensime_server := Some 8080, connects := 1, ws := True, number_try_connection := - 2,
           sent := [PDict [(''callId'', PInt 1), (''req'', connection_info_request)]],
           call_id := 2\<rparr>)"
  by (simp add: connect_ensime_server.simps server_uri_def open_transport_def
      create_connection_def send_request.simps send.simps ws_send_def get_response_skip
      init_def)

theorem connect_ensime_server_contract_witness:
  "connect_ensime_server (init\<lparr>number_try_connection := 0\<rparr>)
     = Returned False (disable_completely (init\<lparr>number_try_connection := 0\<rparr>))
   \<and> connects (disable_completely (init\<lparr>number_try_connection := 0\<rparr>)) = 0
   \<and> number_try_connection
        (open_transport (init\<lparr>ensime := Some 8080, ensime_server := Some 8080\<rparr>)) = 0
   \<and> connects (open_transport (init\<lparr>ensime := Some 8080, ensime_server := Some 8080\<rparr>)) = 1
   \<and> (\<exists>s'. connect_ensime_server
          (init\<lparr>ensime := Some 8080,
                sched := [\<lparr>dt = 0, arrivals =
                  [(KInt 1, PDict [(''callId'', PInt 1), (''payload'', PNone)])]\<rparr>]\<rparr>)
          = Returned True s'
        \<and> number_try_connection s' = 0 \<and> connects s' = 1)
   \<and> (\<exists>s'. connect_ensime_server failing_session = Returned False s'
        \<and> number_try_connection s' = 0 \<and> 30 \<le> clock s' \<and> clock s' < 30 + 1 / 4)"
proof -
  let ?z = "init\<lparr>number_try_connection := 0\<rparr>"
  let ?s = "init\<lparr>ensime := Some 8080\<rparr>"
  let ?s1 = "init\<lparr>ensime := Some 8080, ensime_server := Some 8080\<rparr>"
  let ?kvs = "[(''callId'', PInt 1), (''payload'', PNone)]"
  let ?e = "\<lparr>dt = 0, arrivals = [(KInt 1, PDict ?kvs)]\<rparr>"
  let ?h = "init\<lparr>ensime := Some 8080, sched := [?e]\<rparr>"
  let ?h1 = "init\<lparr>ensime := Some 8080, sched := [?e], ensime_server := Some 8080\<rparr>"
  let ?f1 = "failing_session\<lparr>ensime_server := Some 8080\<rparr>"
  have z: "\<not> (running ?z \<and> number_try_connection ?z \<noteq> 0)" by simp
  note a = connect_ensime_server_contract [where s = ?z, THEN conjunct1, rule_format, OF z]
  have g: "running ?s \<and> number_try_connection ?s \<noteq> 0 \<and> server_uri ?s = Inr ?s1"
    by (simp add: init_def server_uri_def)
  note b = connect_ensime_server_contract [where s = ?s and ?s1.0 = ?s1,
      THEN conjunct2, THEN conjunct1, rule_format, OF g]
  have h: "running ?h \<and> number_try_connection ?h = 1 \<and> server_uri ?h = Inr ?h1
        \<and> KInt (call_id ?h) \<notin> dom (responses ?h) \<and> 0 \<le> read_gap ?h
        \<and> sched ?h = [] @ ?e # []
        \<and> (\<forall>e\<in>set []. KInt (call_id ?h) \<notin> fst ` set (arrivals e) \<and> 0 \<le> dt e)
        \<and> 0 \<le> dt ?e
        \<and> map_of (rev (arrivals ?e)) (KInt (call_id ?h)) = Some (PDict ?kvs)
        \<and> receiver_entry (KInt (call_id ?h)) (PDict ?kvs)
        \<and> map_of ?kvs ''payload'' = Some PNone
        \<and> read_gap ?h + sum_list (map (\<lambda>e. 1 / 4 + dt e) ([] @ [?e])) < 30"
    by (simp add: init_def server_uri_def receiver_entry_def inner_call_id_def)
  note c = connect_ensime_server_contract [where s = ?h and ?s1.0 = ?h1 and pre = "[]"
      and ev = ?e and rest = "[]" and kvs = ?kvs and p = PNone,
      THEN conjunct2, THEN conjunct2, THEN conjunct1, rule_format, OF h]
  have k: "running failing_session \<and> number_try_connection failing_session = 1
        \<and> server_uri failing_session = Inr ?f1
        \<and> KInt (call_id failing_session) \<notin> dom (responses failing_session)
        \<and> 0 \<le> read_gap failing_session \<and> read_gap failing_session \<le> 0
        \<and> (\<forall>e\<in>set (sched failing_session).
              KInt (call_id failing_session) \<notin> fst ` set (arrivals e) \<and> 0 \<le> dt e \<and> dt e \<le> 0)
        \<and> 120 \<le> length (sched failing_session)"
    by (simp add: failing_session_def init_def server_uri_def)
  note d = connect_ensime_server_contract [where s = failing_session and ?s1.0 = ?f1
      and d = 0, THEN conjunct2, THEN conjunct2, THEN conjunct2, rule_format, OF k]
  have f: "connects ?s = 0" "number_try_connection ?s = 1" "connects ?h = 0"
    "clock failing_session = 0" "connects ?z = 0"
    by (simp_all add: init_def failing_session_def)
  show ?thesis
    using a b c d unfolding f by (intro conjI) simp_all
qed

lemma failed_attempt:
  assumes "running s" and "number_try_connection s = 1" and "\<not> ws s"
    and "server_uri s = Inr s1" and "conn_plan s = True # plan"
    and "connect_ensime_server s = Returned b s'"
  shows "warnings s' = warnings s + 1 \<and> connects s' = connects s + 1
       \<and> number_try_connection s' = 0 \<and> \<not> ws s' \<and> \<not> connected s' \<and> sent s' = sent s"
proof -
  have s1: "\<not> ws s1" "conn_plan s1 = True # plan" "warnings s1 = warnings s"
    "connects s1 = connects s" "number_try_connection s1 = 1" "sent s1 = sent s"
    using assms(2,3,5) server_uri_fields [OF assms(4)] by simp_all
  let ?s2 = "open_transport s1"
  have s2: "\<not> ws ?s2" "warnings ?s2 = warnings s + 1" "connects ?s2 = connects s + 1"
    "number_try_connection ?s2 = 0" "\<not> connected ?s2" "sent ?s2 = sent s"
    using s1 by (simp_all add: open_transport_def create_connection_def Let_def)
  let ?s3 = "?s2\<lparr>call_id := call_id ?s2 + 1\<rparr>"
  have sr: "send_request connection_info_request ?s2 = Returned (call_id ?s2) ?s3"
    using s2(1) by (rule send_request_no_transport)
  have c: "connect_ensime_server s = get_response (KInt (call_id ?s2)) 30 True ?s3"
    using assms(1,2,4) sr by (subst connect_ensime_server.simps) simp
  have g: "get_response (KInt (call_id ?s2)) 30 True ?s3 = Returned b s'"
    using c assms(6) by simp
  have "same_session ?s3 s'"
    using get_response_frame [of ?s3 "KInt (call_id ?s2)" 30 True] unfolding g by simp
  then show ?thesis using s2 by (simp add: same_session_def)
qed

text \<open>
  C7 (as amended). With one attempt left and no transport yet, a connection attempt that
  raises a transport error gives exactly one warning and one transport attempt, and leaves
  the session without budget, without transport and not connected, once the call has
  returned from the wait for the handshake answer. A second call attempts no new transport
  connection and returns false, but it runs the disable path again and so gives one more
  warning.
\<close>

theorem failed_connect_then_disabled:
  assumes "running s" and "number_try_connection s = 1" and "\<not> ws s"
    and "server_uri s = Inr s1" and "conn_plan s = True # plan"
    and "connect_ensime_server s = Returned b s'"
  shows "warnings s' = warnings s + 1 \<and> connects s' = connects s + 1
       \<and> number_try_connection s' = 0 \<and> \<not> ws s' \<and> \<not> connected s'
       \<and> connect_ensime_server s' = Returned False (disable_completely s')
       \<and> connects (disable_completely s') = connects s + 1
       \<and> number_try_connection (disable_completely s') = 0
       \<and> warnings (disable_completely s') = warnings s + 2"
proof -
  note f = failed_attempt [OF assms]
  then have "\<not> (running s' \<and> number_try_connection s' \<noteq> 0)" by simp
  then have "connect_ensime_server s' = Returned False (disable_completely s')"
    by (rule connect_guard_fails)
  then show ?thesis using f by simp
qed

lemma failing_session_returns:
  "\<exists>s'. connect_ensime_server failing_session = Returned False s'"
proof -
  have u: "server_uri failing_session = Inr (failing_session\<lparr>ensime_server := Some 8080\<rparr>)"
    by (simp add: server_uri_def failing_session_def init_def)
  obtain s3 where s3:
    "connect_ensime_server failing_session
       = get_response (KInt (call_id failing_session)) 30 True s3"
    "same_wait failing_session s3"
    using connect_session [OF _ _ u] by (auto simp: failing_session_def init_def)
  have w: "responses s3 = Map.empty" "sched s3 = replicate 120 \<lparr>dt = 0, arrivals = []\<rparr>"
    "read_gap s3 = 0"
    using s3(2) by (simp_all add: same_wait_def failing_session_def init_def)
  have "\<exists>n s''. n \<le> length (sched s3)
           \<and> get_response (KInt (call_id failing_session)) 30 True s3 = Returned False s''
           \<and> responses s'' = deliver (concat (map arrivals (take n (sched s3)))) (responses s3)
           \<and> handled s'' = handled s3
           \<and> 30 \<le> clock s'' - clock s3 \<and> clock s'' - clock s3 < 30 + 1 / 4 + 0"
    by (rule get_response_times_out) (simp_all add: w)
  then show ?thesis using s3(1) by auto
qed

theorem second_connect_counterexample:
  "returned (connect_ensime_server failing_session) = Some False
   \<and> warnings (outcome_state (connect_ensime_server failing_session)) = 1
   \<and> returned (connect_ensime_server (outcome_state (connect_ensime_server failing_session)))
       = Some False
   \<and> connects (outcome_state
        (connect_ensime_server (outcome_state (connect_ensime_server failing_session)))) = 1
   \<and> warnings (outcome_state
        (connect_ensime_server (outcome_state (connect_ensime_server failing_session)))) = 2"
proof -
  obtain s' where r: "connect_ensime_server failing_session = Returned False s'"
    using failing_session_returns by blast
  have u: "server_uri failing_session = Inr (failing_session\<lparr>ensime_server := Some 8080\<rparr>)"
    by (simp add: server_uri_def failing_session_def init_def)
  have f: "warnings s' = warnings failing_session + 1 \<and> connects s' = connects failing_session + 1
       \<and> number_try_connection s' = 0 \<and> \<not> ws s' \<and> \<not> connected s' \<and> sent s' = sent failing_session"
    by (rule failed_attempt [OF _ _ _ u _ r]) (simp_all add: failing_session_def init_def)
  then have "\<not> (running s' \<and> number_try_connection s' \<noteq> 0)" by simp
  then have "connect_ensime_server s' = Returned False (disable_completely s')"
    by (rule connect_guard_fails)
  then show ?thesis using r f by (simp add: failing_session_def init_def)
qed

theorem failed_connect_then_disabled_witness:
  "returned (connect_ensime_server failing_session) = Some False
   \<and> warnings (outcome_state (connect_ensime_server failing_session)) = 1
   \<and> connects (outcome_state (connect_ensime_server failing_session)) = 1
   \<and> number_try_connection (outcome_state (connect_ensime_server failing_session)) = 0
   \<and> connects (disable_completely (outcome_state (connect_ensime_server failing_session))) = 1"
proof -
  obtain s' where r: "connect_ensime_server failing_session = Returned False s'"
    using failing_session_returns by blast
  have u: "server_uri failing_session = Inr (failing_session\<lparr>ensime_server := Some 8080\<rparr>)"
    by (simp add: server_uri_def failing_session_def init_def)
  have "warnings s' = warnings failing_session + 1 \<and> connects s' = connects failing_session + 1
       \<and> number_try_connection s' = 0 \<and> \<not> ws s' \<and> \<not> connected s'
       \<and> connect_ensime_server s' = Returned False (disable_completely s')
       \<and> connects (disable_completely s') = connects failing_session + 1
       \<and> number_try_connection (disable_completely s') = 0
       \<and> warnings (disable_completely s') = warnings failing_session + 2"
    by (rule failed_connect_then_disabled [OF _ _ _ u _ r])
      (simp_all add: failing_session_def init_def)
  then show ?thesis using r by (simp add: failing_session_def init_def)
qed

lemma ws_kept:
  "ws s \<longrightarrow> ws (outcome_state (send_request r s))"
  "ws s \<longrightarrow> ws (outcome_state (send msg s))"
  "ws s \<longrightarrow> ws (outcome_state (connect_ensime_server s))"
proof (induction r s and msg s and s rule: send_request_send_connect_ensime_server.induct)
  case (1 request s)
  then show ?case
    by (subst send_request.simps) (auto simp: Let_def split: outcome.splits)
next
  case (2 msg s)
  show ?case
  proof (cases "ws s")
    case False
    then show ?thesis by simp
  next
    case True
    show ?thesis
    proof (cases "ws_send msg s")
      case (Inr s1)
      then show ?thesis
        using True ws_send_Inr_fields(7) [OF Inr] by (simp add: send_first_ok)
    next
      case (Inl s1)
      let ?s1 = "s1\<lparr>send_error_logs := send_error_logs s1 + 1\<rparr>"
      have w1: "ws ?s1" using True ws_send_Inl_fields(7) [OF Inl] by simp
      have ih: "ws (outcome_state (connect_ensime_server ?s1))"
        using "2.IH" [OF True Inl] w1 by simp
      show ?thesis
      proof (cases "connect_ensime_server ?s1")
        case (Returned b s2)
        then have w2: "ws s2" using ih by simp
        show ?thesis
        proof (cases "ws_send msg s2")
          case r: (Inr s3)
          then show ?thesis
            using True Inl Returned w2 ws_send_Inr_fields(7) [OF r]
            by (subst send.simps) simp
        next
          case l: (Inl s3)
          then show ?thesis
            using True Inl Returned w2 ws_send_Inl_fields(7) [OF l]
            by (subst send.simps) simp
        qed
      next
        case (Raised e s2)
        then show ?thesis using True Inl ih by (subst send.simps) simp
      next
        case (Pending s2)
        then show ?thesis using True Inl ih by (subst send.simps) simp
      qed
    qed
  qed
next
  case (3 s)
  show ?case
  proof (cases "running s \<and> number_try_connection s \<noteq> 0")
    case False
    then show ?thesis by (simp add: connect_guard_fails)
  next
    case True
    show ?thesis
    proof (cases "server_uri s")
      case (Inl e)
      then show ?thesis using True by (subst connect_ensime_server.simps) simp
    next
      case (Inr s1)
      have ih: "ws (open_transport s1) \<longrightarrow>
          ws (outcome_state (send_request connection_info_request (open_transport s1)))"
        using "3.IH" [OF True Inr] .
      show ?thesis
      proof
        assume "ws s"
        then have "ws (open_transport s1)"
          using server_uri_fields(1) [OF Inr] by (simp add: open_transport_fields)
        with ih have w: "ws (outcome_state (send_request connection_info_request (open_transport s1)))"
          by simp
        have g: "\<And>cid t s2. ws (outcome_state (get_response cid t True s2)) = ws s2"
          using get_response_frame by (simp add: same_session_def)
        show "ws (outcome_state (connect_ensime_server s))"
          using True Inr w
          by (subst connect_ensime_server.simps) (auto simp: g split: outcome.splits)
      qed
    qed
  qed
qed

lemma consume_error: "consume v s = Inl (e, s') \<Longrightarrow> e \<noteq> WebSocketException"
proof (cases v)
  case (PDict kvs)
  then show "consume v s = Inl (e, s') \<Longrightarrow> e \<noteq> WebSocketException"
    by (auto simp: consume_def del_response_def Let_def
        split: option.splits sum.splits if_splits)
qed (auto simp: consume_def)

lemma gr_loop_error:
  "loop_raised (gr_loop evs cid timeout start now s) \<noteq> Some WebSocketException"
proof (induction evs arbitrary: s now)
  case Nil
  show ?case
    using consume_error
    by (subst gr_loop.simps) (auto split: option.splits sum.splits prod.splits)
next
  case (Cons ev evs)
  show ?case
    using consume_error Cons.IH
    by (subst gr_loop.simps) (auto simp: Let_def split: option.splits sum.splits prod.splits)
qed

lemma get_response_error: "raised (get_response cid timeout w s) \<noteq> Some WebSocketException"
proof (cases "cid \<in> dom (responses s) \<or> \<not> w")
  case True
  then show ?thesis by (simp add: get_response_skip)
next
  case False
  then have w: "w" and n: "cid \<notin> dom (responses s)" by auto
  show ?thesis
    using gr_loop_error [of "sched s" cid timeout "clock s" "clock s + read_gap s"
        "s\<lparr>clock := clock s + read_gap s\<rparr>"] w
    by (cases "gr_loop (sched s) cid timeout (clock s) (clock s + read_gap s)
          (s\<lparr>clock := clock s + read_gap s\<rparr>)")
      (simp_all add: get_response_waits [OF n])
qed

text \<open>A transport error never leaves \<^verbatim>\<open>send\<close>, \<^verbatim>\<open>send_request\<close> or
  \<^verbatim>\<open>connect_ensime_server\<close>.\<close>

lemma no_transport_error:
  "raised (send_request r s) \<noteq> Some WebSocketException"
  "raised (send msg s) \<noteq> Some WebSocketException"
  "raised (connect_ensime_server s) \<noteq> Some WebSocketException"
proof (induction r s and msg s and s rule: send_request_send_connect_ensime_server.induct)
  case (1 request s)
  then show ?case
    by (subst send_request.simps) (auto simp: Let_def split: outcome.splits)
next
  case (2 msg s)
  then show ?case
    by (subst send.simps) (auto split: sum.splits outcome.splits)
next
  case (3 s)
  have u: "\<And>e. server_uri s = Inl e \<Longrightarrow> e \<noteq> WebSocketException"
    by (auto simp: server_uri_def split: if_splits option.splits)
  from 3 show ?case
    using get_response_error u
    by (subst connect_ensime_server.simps) (auto split: sum.splits outcome.splits)
qed

text \<open>
  C5 (as amended). \<^verbatim>\<open>send\<close> is a no-op when there is no transport object
  (\<^verbatim>\<open>self.ws\<close> is \<^verbatim>\<open>None\<close>), whatever the \<^verbatim>\<open>connected\<close> flag says. With a
  transport, a send that succeeds puts the message on the wire once. When the send raises
  a transport error, the error is logged, \<^verbatim>\<open>connect_ensime_server\<close> is called once
  and, after it has returned, the send is retried once: a retry that succeeds puts the
  message on the wire once, and a retry that fails is only logged; \<^verbatim>\<open>send\<close> returns
  in both cases, and no transport error ever reaches its caller. In a session whose budget
  is spent the recovery opens no new transport and gives one warning.
\<close>

theorem send_contract:
  "(\<not> ws s \<longrightarrow> send msg s = Returned () s)
   \<and> (ws s \<and> ws_send msg s = Inr s1 \<longrightarrow>
        send msg s = Returned () s1 \<and> sent s1 = sent s @ [msg])
   \<and> (ws s \<and> ws_send msg s = Inl s1
        \<and> connect_ensime_server (s1\<lparr>send_error_logs := send_error_logs s1 + 1\<rparr>)
            = Returned b s2
        \<and> ws_send msg s2 = Inr s3 \<longrightarrow>
        send msg s = Returned () s3 \<and> sent s3 = sent s2 @ [msg])
   \<and> (ws s \<and> ws_send msg s = Inl s1
        \<and> connect_ensime_server (s1\<lparr>send_error_logs := send_error_logs s1 + 1\<rparr>)
            = Returned b s2
        \<and> ws_send msg s2 = Inl s3 \<longrightarrow>
        send msg s = Returned () (s3\<lparr>send_error_logs := send_error_logs s3 + 1\<rparr>)
        \<and> sent s3 = sent s2)
   \<and> (ws s \<and> ws_send msg s = Inl s1 \<and> number_try_connection s1 = 0
        \<and> ws_send msg (disable_completely (s1\<lparr>send_error_logs := send_error_logs s1 + 1\<rparr>))
            = Inr s4 \<longrightarrow>
        send msg s = Returned () s4 \<and> sent s4 = sent s @ [msg]
        \<and> warnings s4 = warnings s + 1 \<and> connects s4 = connects s)
   \<and> raised (send msg s) \<noteq> Some WebSocketException"
proof (intro conjI impI)
  assume "\<not> ws s"
  then show "send msg s = Returned () s" by (rule send_no_transport)
next
  assume a: "ws s \<and> ws_send msg s = Inr s1"
  then show "send msg s = Returned () s1" by (simp add: send_first_ok)
  show "sent s1 = sent s @ [msg]" using a ws_send_Inr_fields(1) by blast
next
  assume a: "ws s \<and> ws_send msg s = Inl s1
        \<and> connect_ensime_server (s1\<lparr>send_error_logs := send_error_logs s1 + 1\<rparr>)
            = Returned b s2
        \<and> ws_send msg s2 = Inr s3"
  let ?s1 = "s1\<lparr>send_error_logs := send_error_logs s1 + 1\<rparr>"
  have "ws ?s1" using a ws_send_Inl_fields(7) [of msg s s1] by simp
  then have "ws (outcome_state (connect_ensime_server ?s1))" using ws_kept(3) by blast
  then have "ws s2" using a by simp
  then show "send msg s = Returned () s3" using a by (subst send.simps) simp
  show "sent s3 = sent s2 @ [msg]" using a ws_send_Inr_fields(1) by blast
next
  assume a: "ws s \<and> ws_send msg s = Inl s1
        \<and> connect_ensime_server (s1\<lparr>send_error_logs := send_error_logs s1 + 1\<rparr>)
            = Returned b s2
        \<and> ws_send msg s2 = Inl s3"
  let ?s1 = "s1\<lparr>send_error_logs := send_error_logs s1 + 1\<rparr>"
  have "ws ?s1" using a ws_send_Inl_fields(7) [of msg s s1] by simp
  then have "ws (outcome_state (connect_ensime_server ?s1))" using ws_kept(3) by blast
  then have "ws s2" using a by simp
  then show "send msg s = Returned () (s3\<lparr>send_error_logs := send_error_logs s3 + 1\<rparr>)"
    using a by (subst send.simps) simp
  show "sent s3 = sent s2" using a ws_send_Inl_fields(1) by blast
next
  assume a: "ws s \<and> ws_send msg s = Inl s1 \<and> number_try_connection s1 = 0
        \<and> ws_send msg (disable_completely (s1\<lparr>send_error_logs := send_error_logs s1 + 1\<rparr>))
            = Inr s4"
  let ?s1 = "s1\<lparr>send_error_logs := send_error_logs s1 + 1\<rparr>"
  have c: "connect_ensime_server ?s1 = Returned False (disable_completely ?s1)"
    using a by (simp add: connect_guard_fails)
  have i: "ws_send msg s = Inl s1" and r: "ws_send msg (disable_completely ?s1) = Inr s4"
    using a by simp_all
  note s1 = ws_send_Inl_fields [OF i]
  note s4 = ws_send_Inr_fields [OF r]
  have w: "ws (disable_completely ?s1)" using a s1(7) by simp
  show "send msg s = Returned () s4" using a c w by (subst send.simps) simp
  show "sent s4 = sent s @ [msg]" using s1 s4 by simp
  show "warnings s4 = warnings s + 1" using s1 s4 by simp
  show "connects s4 = connects s" using s1 s4 by simp
next
  show "raised (send msg s) \<noteq> Some WebSocketException" by (rule no_transport_error)
qed

theorem send_not_connected_counterexample:
  "\<not> connected after_shutdown
   \<and> send (PStr ''m'') after_shutdown = Returned () (after_shutdown\<lparr>sent := [PStr ''m'']\<rparr>)"
  by (simp add: send.simps ws_send_def after_shutdown_def shutdown_server_def init_def)

theorem send_contract_witness:
  "send (PStr ''m'') init = Returned () init
   \<and> send (PStr ''m'') after_shutdown = Returned () (after_shutdown\<lparr>sent := [PStr ''m'']\<rparr>)
   \<and> send (PStr ''m'') (after_shutdown\<lparr>send_plan := [True]\<rparr>)
       = Returned ()
          (disable_completely (after_shutdown\<lparr>send_plan := [], send_error_logs := 1\<rparr>)
             \<lparr>sent := [PStr ''m'']\<rparr>)
   \<and> warnings
        (disable_completely (after_shutdown\<lparr>send_plan := [], send_error_logs := 1\<rparr>)
           \<lparr>sent := [PStr ''m'']\<rparr>) = 1
   \<and> connects
        (disable_completely (after_shutdown\<lparr>send_plan := [], send_error_logs := 1\<rparr>)
           \<lparr>sent := [PStr ''m'']\<rparr>) = 0
   \<and> send (PStr ''m'') (after_shutdown\<lparr>send_plan := [True, True]\<rparr>)
       = Returned ()
          (disable_completely (after_shutdown\<lparr>send_plan := [True], send_error_logs := 1\<rparr>)
             \<lparr>send_plan := [], send_error_logs := 2\<rparr>)"
proof -
  let ?m = "PStr ''m''"
  let ?f = "after_shutdown\<lparr>send_plan := [True]\<rparr>"
  let ?s1 = "after_shutdown\<lparr>send_plan := []\<rparr>"
  let ?d = "disable_completely (after_shutdown\<lparr>send_plan := [], send_error_logs := 1\<rparr>)"
  let ?s4 = "?d\<lparr>sent := [?m]\<rparr>"
  let ?g = "after_shutdown\<lparr>send_plan := [True, True]\<rparr>"
  let ?g1 = "after_shutdown\<lparr>send_plan := [True]\<rparr>"
  let ?gd = "disable_completely (after_shutdown\<lparr>send_plan := [True], send_error_logs := 1\<rparr>)"
  let ?g3 = "?gd\<lparr>send_plan := []\<rparr>"
  have f: "ws after_shutdown" "number_try_connection after_shutdown = 0"
    "sent after_shutdown = []" "warnings after_shutdown = 0" "connects after_shutdown = 0"
    "send_plan after_shutdown = []" "send_error_logs after_shutdown = 0"
    by (simp_all add: after_shutdown_def shutdown_server_def init_def)
  have n: "\<not> ws init" by (simp add: init_def)
  have a: "send ?m init = Returned () init"
    by (rule send_contract [where s = init and msg = ?m, THEN conjunct1, rule_format, OF n])
  have b1: "ws_send ?m after_shutdown = Inr (after_shutdown\<lparr>sent := [?m]\<rparr>)"
    using f by (simp add: ws_send_def)
  have b: "send ?m after_shutdown = Returned () (after_shutdown\<lparr>sent := [?m]\<rparr>)"
    by (rule send_contract [where s = after_shutdown and msg = ?m, THEN conjunct2,
          THEN conjunct1, rule_format, OF conjI [OF f(1) b1], THEN conjunct1])
  have wf: "ws ?f" "number_try_connection ?s1 = 0" using f by simp_all
  have c1: "ws_send ?m ?f = Inl ?s1" by (simp add: ws_send_def)
  have e1: "?s1\<lparr>send_error_logs := send_error_logs ?s1 + 1\<rparr>
      = after_shutdown\<lparr>send_plan := [], send_error_logs := 1\<rparr>"
    using f by simp
  have c3: "ws_send ?m (disable_completely (?s1\<lparr>send_error_logs := send_error_logs ?s1 + 1\<rparr>))
      = Inr ?s4"
    unfolding e1 using f by (simp add: ws_send_def)
  note d = send_contract [where s = ?f and msg = ?m, THEN conjunct2, THEN conjunct2,
      THEN conjunct2, THEN conjunct2, THEN conjunct1, rule_format,
      OF conjI [OF wf(1) conjI [OF c1 conjI [OF wf(2) c3]]]]
  have c: "send ?m ?f = Returned () ?s4" by (rule d [THEN conjunct1])
  have w: "warnings ?s4 = warnings ?f + 1"
    by (rule d [THEN conjunct2, THEN conjunct2, THEN conjunct1])
  have k: "connects ?s4 = connects ?f"
    by (rule d [THEN conjunct2, THEN conjunct2, THEN conjunct2])
  have e: "warnings ?f = 0" "connects ?f = 0" using f by simp_all
  have wg: "ws ?g" using f by simp
  have g1: "ws_send ?m ?g = Inl ?g1" by (simp add: ws_send_def)
  have e2: "?g1\<lparr>send_error_logs := send_error_logs ?g1 + 1\<rparr>
      = after_shutdown\<lparr>send_plan := [True], send_error_logs := 1\<rparr>"
    using f by simp
  have g2: "connect_ensime_server (?g1\<lparr>send_error_logs := send_error_logs ?g1 + 1\<rparr>)
      = Returned False ?gd"
    unfolding e2 using f by (simp add: connect_guard_fails)
  have g3: "ws_send ?m ?gd = Inl ?g3" by (simp add: ws_send_def)
  note r = send_contract [where s = ?g and msg = ?m, THEN conjunct2, THEN conjunct2,
      THEN conjunct2, THEN conjunct1, rule_format,
      OF conjI [OF wg conjI [OF g1 conjI [OF g2 g3]]], THEN conjunct1]
  have l: "send_error_logs ?g3 + 1 = 2" using f by simp
  have t: "?g3\<lparr>send_error_logs := send_error_logs ?g3 + 1\<rparr>
      = ?gd\<lparr>send_plan := [], send_error_logs := 2\<rparr>"
    unfolding l by simp
  have x: "send ?m ?g = Returned () (?gd\<lparr>send_plan := [], send_error_logs := 2\<rparr>)"
    using r unfolding t .
  show ?thesis using a b c w k x unfolding e by (intro conjI) simp_all
qed

section \<open>Call ids\<close>

lemma ids_shift:
  "map (\<lambda>i. c + int i) [0..<Suc n] = c # map (\<lambda>i. (c + 1) + int i) [0..<n]"
  by (simp add: upt_rec [of 0] map_Suc_upt [symmetric] del: upt_Suc)

lemma session_inv_connect:
  assumes "session_inv s"
  shows "session_inv (outcome_state (connect_ensime_server s))"
proof (cases "running s \<and> number_try_connection s \<noteq> 0")
  case False
  then show ?thesis using assms by (simp add: connect_guard_fails session_inv_def)
next
  case True
  then have b: "running s" "number_try_connection s = 1"
    using assms by (auto simp: session_inv_def)
  show ?thesis
  proof (cases "server_uri s")
    case (Inl e)
    then show ?thesis using True assms by (subst connect_ensime_server.simps) simp
  next
    case (Inr s1)
    obtain s3 where s3: "connect_ensime_server s = get_response (KInt (call_id s)) 30 True s3"
      "number_try_connection s3 = 0"
      using connect_session [OF b Inr] by blast
    have "same_session s3 (outcome_state (get_response (KInt (call_id s)) 30 True s3))"
      by (rule get_response_frame)
    then show ?thesis using s3 by (simp add: same_session_def session_inv_def)
  qed
qed

lemma session_inv_get_response:
  assumes "session_inv s"
  shows "session_inv (outcome_state (get_response cid timeout w s))"
  using assms get_response_frame [of s cid timeout w]
  by (simp add: same_session_def session_inv_def)

lemma session_inv_shutdown:
  "session_inv s \<Longrightarrow> session_inv (shutdown_server s)"
  "session_inv s \<Longrightarrow> session_inv (teardown s)"
  by (simp_all add: session_inv_def teardown_def shutdown_server_def Let_def)

text \<open>
  C2. A session has its one attempt left and no transport yet, or no attempt left: this
  holds when \<^verbatim>\<open>__init__\<close> returns, and \<^verbatim>\<open>send_request\<close>,
  \<^verbatim>\<open>connect_ensime_server\<close>, \<^verbatim>\<open>get_response\<close>, \<^verbatim>\<open>shutdown_server\<close> and
  \<^verbatim>\<open>teardown\<close> keep it. In a session every call of a sequence of
  \<^verbatim>\<open>send_request\<close> calls returns, and the ids returned are the consecutive integers from
  the counter's value at the start, which \<^verbatim>\<open>__init__\<close> sets to 1: strictly
  increasing, without gaps or repeats, one id for each request, whether the transport
  sends succeed, fail or are not made at all. The counter ends one past the last id, and
  what went on the wire is, in order, some of the requests, each under its own id.
\<close>

theorem send_requests_ids:
  assumes "session_inv s"
  shows "\<exists>s' wire.
           send_requests requests s
             = Returned (map (\<lambda>i. call_id s + int i) [0..<length requests]) s'
           \<and> call_id s' = call_id s + int (length requests)
           \<and> session_inv s'
           \<and> sent s' = sent s @ wire
           \<and> subseq wire
               (map2 request_message (map (\<lambda>i. call_id s + int i) [0..<length requests])
                  requests)"
  using assms
proof (induction requests arbitrary: s)
  case Nil
  then show ?case by simp
next
  case (Cons r requests)
  obtain s1 where s1: "send_request r s = Returned (call_id s) s1"
    "call_id s1 = call_id s + 1" "session_inv s1"
    "sent s1 = sent s \<or> sent s1 = sent s @ [request_message (call_id s) r]"
    using send_request_step [OF Cons.prems, of r] by blast
  let ?ids = "map (\<lambda>i. (call_id s + 1) + int i) [0..<length requests]"
  obtain s' wire where s': "send_requests requests s1 = Returned ?ids s'"
    "call_id s' = call_id s1 + int (length requests)" "session_inv s'"
    "sent s' = sent s1 @ wire" "subseq wire (map2 request_message ?ids requests)"
    using Cons.IH [OF s1(3)] unfolding s1(2) by blast
  have i: "map (\<lambda>i. call_id s + int i) [0..<length (r # requests)] = call_id s # ?ids"
    using ids_shift [of "call_id s" "length requests"] by simp
  have e: "send_requests (r # requests) s = Returned (call_id s # ?ids) s'"
    using s1(1) s'(1) by simp
  have c: "call_id s' = call_id s + int (length (r # requests))"
    using s'(2) s1(2) by simp
  from s1(4) have "\<exists>wire'. sent s' = sent s @ wire'
      \<and> subseq wire' (request_message (call_id s) r # map2 request_message ?ids requests)"
  proof
    assume "sent s1 = sent s"
    then show ?thesis using s'(4,5) by (intro exI [of _ wire]) (simp add: list_emb_Cons)
  next
    assume "sent s1 = sent s @ [request_message (call_id s) r]"
    then show ?thesis
      using s'(4,5) by (intro exI [of _ "request_message (call_id s) r # wire"]) simp
  qed
  then obtain wire' where w: "sent s' = sent s @ wire'"
    "subseq wire' (request_message (call_id s) r # map2 request_message ?ids requests)"
    by blast
  show ?case
    unfolding i using e c s'(3) w by (intro exI [of _ s'] exI [of _ wire']) simp
qed

theorem send_requests_ids_witness:
  "session_inv init
   \<and> returned (send_requests [PStr ''a'', PStr ''b'', PStr ''c''] init) = Some [1, 2, 3]
   \<and> session_inv (after_shutdown\<lparr>send_plan := [True, False, True, True]\<rparr>)
   \<and> returned (send_requests [PStr ''a'', PStr ''b'', PStr ''c'']
        (after_shutdown\<lparr>send_plan := [True, False, True, True]\<rparr>)) = Some [1, 2, 3]"
proof -
  let ?rs = "[PStr ''a'', PStr ''b'', PStr ''c'']"
  let ?f = "after_shutdown\<lparr>send_plan := [True, False, True, True]\<rparr>"
  have n: "[0..<length ?rs] = [0, 1, 2]" by (simp add: upt_rec)
  have a: "session_inv init" by (simp add: session_inv_def init_def)
  have b: "session_inv ?f"
    by (simp add: session_inv_def after_shutdown_def shutdown_server_def init_def)
  have c: "call_id init = 1" "call_id ?f = 1"
    by (simp_all add: after_shutdown_def shutdown_server_def init_def)
  obtain s' where "send_requests ?rs init
      = Returned (map (\<lambda>i. call_id init + int i) [0..<length ?rs]) s'"
    using send_requests_ids [OF a, of ?rs] by blast
  then have x: "returned (send_requests ?rs init) = Some [1, 2, 3]"
    unfolding n c by simp
  obtain s'' where "send_requests ?rs ?f
      = Returned (map (\<lambda>i. call_id ?f + int i) [0..<length ?rs]) s''"
    using send_requests_ids [OF b, of ?rs] by blast
  then have y: "returned (send_requests ?rs ?f) = Some [1, 2, 3]"
    unfolding n c by simp
  show ?thesis using a b x y by (intro conjI)
qed

section \<open>Properties of the receiver loop\<close>

lemma receive_accepted:
  assumes "accepted (Recv r)"
  shows "\<exists>s'. receive r s = Inr s' \<and> running s' = running s \<and> ws s' = ws s
            \<and> clock s' = clock s"
proof (cases r)
  case WsError
  then show ?thesis
    by (simp add: receive_def log_and_close_def display_ws_warning_def shutdown_server_def
        Let_def)
next
  case (Text t)
  then obtain kvs where t: "t = Some (PDict kvs)"
    using assms by (cases t) (auto elim: accepted.elims)
  show ?thesis
  proof (cases "inner_call_id kvs = PNone")
    case True
    then obtain p where "map_of kvs ''payload'' = Some p" using assms Text t by auto
    then show ?thesis
      using True Text t
      by (simp add: receive_def dispatch_dict handle_incoming_response_def)
  next
    case False
    then obtain k where "as_key (inner_call_id kvs) = Some k" using assms Text t by auto
    then show ?thesis
      using False Text t by (simp add: receive_def dispatch_dict)
  qed
qed

lemma queue_poll_step:
  assumes "running s" and "accepted (Recv r)"
  shows "\<exists>s1. queue_poll (Recv r # evs) s = queue_poll evs s1 \<and> running s1
            \<and> clock s1 = clock s + 1 / 2"
proof (cases "ws s")
  case False
  have "queue_poll (Recv r # evs) s = queue_poll evs (s\<lparr>clock := clock s + 0.5\<rparr>)"
    using False assms(1) by (subst queue_poll.simps) simp
  then show ?thesis
    using assms(1) by (intro exI [of _ "s\<lparr>clock := clock s + 0.5\<rparr>"]) simp
next
  case True
  obtain s' where s': "receive r s = Inr s'" "running s' = running s" "clock s' = clock s"
    using receive_accepted [OF assms(2)] by blast
  have "queue_poll (Recv r # evs) s = queue_poll evs (s'\<lparr>clock := clock s' + 0.5\<rparr>)"
    using True assms(1) s'(1) by (subst queue_poll.simps) simp
  then show ?thesis
    using assms(1) s' by (intro exI [of _ "s'\<lparr>clock := clock s' + 0.5\<rparr>"]) simp
qed

lemma queue_poll_run:
  assumes "running s" and "\<forall>ev\<in>set evs. accepted ev"
  shows "\<exists>s1. queue_poll (evs @ rest) s = queue_poll rest s1 \<and> running s1
            \<and> clock s1 = clock s + of_nat (length evs) / 2"
  using assms
proof (induction evs arbitrary: s)
  case Nil
  then show ?case by (intro exI [of _ s]) simp
next
  case (Cons ev evs)
  then obtain r where ev: "ev = Recv r" by (cases ev) auto
  have "accepted (Recv r)" using Cons.prems(2) ev by simp
  from queue_poll_step [OF Cons.prems(1) this, of "evs @ rest"]
  obtain s1 where s1: "queue_poll (Recv r # evs @ rest) s = queue_poll (evs @ rest) s1"
    "running s1" "clock s1 = clock s + 1 / 2" by blast
  obtain s2 where s2: "queue_poll (evs @ rest) s1 = queue_poll rest s2" "running s2"
    "clock s2 = clock s1 + of_nat (length evs) / 2"
    using Cons.IH [OF s1(2)] Cons.prems(2) by auto
  show ?case
    using ev s1 s2 by (intro exI [of _ s2]) (simp add: field_simps)
qed

text \<open>
  C6 (as amended). The receiver loop does not stop on a transport error of a reception, nor
  on a message that parses to a dictionary with a hashable \<^verbatim>\<open>callId\<close> or, without one,
  with a \<^verbatim>\<open>payload\<close> field: after any number of such iterations it is still running,
  and it stops once another thread has run \<^verbatim>\<open>teardown\<close>, which makes \<^verbatim>\<open>running\<close>
  false.
\<close>

theorem receiver_loop_continues:
  assumes "running s" and "\<forall>ev\<in>set evs. accepted ev"
  shows "(\<exists>s'. queue_poll evs s = Pending s' \<and> running s'
              \<and> clock s' = clock s + of_nat (length evs) / 2)
       \<and> (\<exists>s'. queue_poll (evs @ Teardown # rest) s = Returned () s' \<and> \<not> running s')"
proof
  obtain s1 where s1: "queue_poll (evs @ []) s = queue_poll [] s1" "running s1"
    "clock s1 = clock s + of_nat (length evs) / 2"
    using queue_poll_run [OF assms, of "[]"] by blast
  have "queue_poll [] s1 = Pending s1" using s1(2) by (subst queue_poll.simps) simp
  then show "\<exists>s'. queue_poll evs s = Pending s' \<and> running s'
              \<and> clock s' = clock s + of_nat (length evs) / 2"
    using s1 by auto
next
  obtain s1 where s1: "queue_poll (evs @ Teardown # rest) s = queue_poll (Teardown # rest) s1"
    "running s1"
    using queue_poll_run [OF assms, of "Teardown # rest"] by blast
  have t: "\<not> running (teardown s1)" by (simp add: teardown_def shutdown_server_def Let_def)
  have "queue_poll (Teardown # rest) s1 = queue_poll rest (teardown s1)"
    using s1(2) by (subst queue_poll.simps) simp
  also have "\<dots> = Returned () (teardown s1)" using t by (subst queue_poll.simps) simp
  finally show "\<exists>s'. queue_poll (evs @ Teardown # rest) s = Returned () s' \<and> \<not> running s'"
    using s1(1) t by auto
qed

theorem receiver_loop_counterexample:
  "running (init\<lparr>ws := True\<rparr>)
   \<and> queue_poll [Recv (Text None), Recv WsError] (init\<lparr>ws := True\<rparr>)
       = Raised ValueError (init\<lparr>ws := True\<rparr>)
   \<and> queue_poll [Recv (Text (Some (PDict [(''typehint'', PStr ''Note'')]))), Recv WsError]
        (init\<lparr>ws := True\<rparr>)
       = Raised KeyError (init\<lparr>ws := True\<rparr>)"
  by (simp add: queue_poll.simps receive_def dispatch_def init_def)

theorem receiver_loop_continues_witness:
  "(\<exists>s'. queue_poll
          [Recv WsError,
           Recv (Text (Some (PDict [(''callId'', PInt 1), (''payload'', PNone)]))),
           Recv (Text (Some (PDict [(''payload'', PDict [(''typehint'', PStr ''Note'')])])))]
          (init\<lparr>ws := True\<rparr>) = Pending s'
        \<and> running s' \<and> clock s' = 3 / 2)
   \<and> (\<exists>s'. queue_poll
          [Recv WsError,
           Recv (Text (Some (PDict [(''callId'', PInt 1), (''payload'', PNone)]))),
           Recv (Text (Some (PDict [(''payload'', PDict [(''typehint'', PStr ''Note'')])]))),
           Teardown, Recv WsError]
          (init\<lparr>ws := True\<rparr>) = Returned () s'
        \<and> \<not> running s')"
  using receiver_loop_continues [of "init\<lparr>ws := True\<rparr>"
      "[Recv WsError,
        Recv (Text (Some (PDict [(''callId'', PInt 1), (''payload'', PNone)]))),
        Recv (Text (Some (PDict [(''payload'', PDict [(''typehint'', PStr ''Note'')])])))]"
      "[Recv WsError]"]
  by (simp add: init_def inner_call_id_def)



end
